theory Spec2Isabelle
  imports Main "HOL-Library.AList"
begin

section \<open>Errors and strings\<close>

text \<open>
  The exceptions the program can raise become values.  A fallible computation returns
  \<open>error + 'a\<close>, with \<open>Inl\<close> for the raised exception.  Methods that mutate
  a \<open>Record\<close> return the outcome together with the record as the call leaves it,
  also when the call raises: Python mutates in place, and what an exception leaves
  behind is observable.

  A Python \<open>str\<close> is modelled as a \<open>string\<close>; every \<open>char\<close> stands for the code
  point of the same number (0 to 255).
\<close>

datatype error = ValueError | OverflowError | UnpicklingError

type_synonym 'a result = "error + 'a"

text \<open>
  \<^verbatim>\<open>str.isdigit\<close>: true when the string is not empty and every character is a digit
  character.  Among the code points 0 to 255 the digit characters of Python are
  \<^verbatim>\<open>0\<close> to \<^verbatim>\<open>9\<close> and the superscript digits at 178, 179 and 185.
\<close>

definition isdigit_char :: "char \<Rightarrow> bool" where
  "isdigit_char c =
     (let n = (of_char c :: nat)
      in (48 \<le> n \<and> n \<le> 57) \<or> n = 178 \<or> n = 179 \<or> n = 185)"

definition isdigit :: "string \<Rightarrow> bool" where
  "isdigit s = (s \<noteq> [] \<and> list_all isdigit_char s)"

section \<open>Dates of the standard library\<close>

text \<open>
  The program computes with \<^verbatim>\<open>datetime.date\<close>.  A date is a record of year, month
  and day; the functions below follow the library's own algorithms
  (\<^verbatim>\<open>_days_before_year\<close>, \<^verbatim>\<open>_ymd2ord\<close>, \<^verbatim>\<open>_ord2ymd\<close> and the methods of
  \<^verbatim>\<open>date\<close>).  Python's integers are unbounded, so they are \<open>int\<close>; \<^verbatim>\<open>//\<close> and
  \<^verbatim>\<open>%\<close> round towards minus infinity, as \<open>div\<close> and \<open>mod\<close> do.
\<close>

record date =
  year :: int
  month :: int
  day :: int

definition MINYEAR :: int where "MINYEAR = 1"
definition MAXYEAR :: int where "MAXYEAR = 9999"

text \<open>The ordinal of 31 December 9999, \<^verbatim>\<open>date.max.toordinal()\<close>.\<close>

definition MAXORDINAL :: int where "MAXORDINAL = 3652059"

definition DAYS_IN_MONTH :: "int list" where
  "DAYS_IN_MONTH = [-1, 31, 28, 31, 30, 31, 30, 31, 31, 30, 31, 30, 31]"

definition DAYS_BEFORE_MONTH :: "int list" where
  "DAYS_BEFORE_MONTH = [-1, 0, 31, 59, 90, 120, 151, 181, 212, 243, 273, 304, 334]"

definition is_leap :: "int \<Rightarrow> bool" where
  "is_leap y = (y mod 4 = 0 \<and> (y mod 100 \<noteq> 0 \<or> y mod 400 = 0))"

definition days_before_year :: "int \<Rightarrow> int" where
  "days_before_year yr = (let y = yr - 1 in y * 365 + y div 4 - y div 100 + y div 400)"

definition days_in_month :: "int \<Rightarrow> int \<Rightarrow> int" where
  "days_in_month y m = (if m = 2 \<and> is_leap y then 29 else DAYS_IN_MONTH ! nat m)"

definition days_before_month :: "int \<Rightarrow> int \<Rightarrow> int" where
  "days_before_month y m = DAYS_BEFORE_MONTH ! nat m + (if m > 2 \<and> is_leap y then 1 else 0)"

definition ymd2ord :: "int \<Rightarrow> int \<Rightarrow> int \<Rightarrow> int" where
  "ymd2ord y m d = days_before_year y + days_before_month y m + d"

definition DI400Y :: int where "DI400Y = days_before_year 401"
definition DI100Y :: int where "DI100Y = days_before_year 101"
definition DI4Y :: int where "DI4Y = days_before_year 5"

text \<open>
  \<^verbatim>\<open>_ord2ymd\<close>: the date of an ordinal, 1 January of year 1 being day 1.  The
  shift \<^verbatim>\<open>(n + 50) >> 5\<close> of the month estimate is a division by 32.
\<close>

definition ord2ymd :: "int \<Rightarrow> int \<times> int \<times> int" where
  "ord2ymd n0 =
     (let n = n0 - 1;
          n400 = n div DI400Y; n = n mod DI400Y;
          yr = n400 * 400 + 1;
          n100 = n div DI100Y; n = n mod DI100Y;
          n4 = n div DI4Y; n = n mod DI4Y;
          n1 = n div 365; n = n mod 365;
          yr = yr + (n100 * 100 + n4 * 4 + n1)
      in if n1 = 4 \<or> n100 = 4 then (yr - 1, 12, 31)
         else
           let leapyear = (n1 = 3 \<and> (n4 \<noteq> 24 \<or> n100 = 3));
               mth = (n + 50) div 32;
               preceding = DAYS_BEFORE_MONTH ! nat mth + (if mth > 2 \<and> leapyear then 1 else 0)
           in if preceding > n
              then let mth = mth - 1;
                       preceding = preceding - (DAYS_IN_MONTH ! nat mth + (if mth = 2 \<and> leapyear then 1 else 0))
                   in (yr, mth, n - preceding + 1)
              else (yr, mth, n - preceding + 1))"

text \<open>
  The constructor \<^verbatim>\<open>date(year, month, day)\<close> checks its fields and raises
  \<^verbatim>\<open>ValueError\<close> when the year is outside 1 to 9999, the month outside 1 to 12 or the
  day outside the month.
\<close>

definition date_new :: "int \<Rightarrow> int \<Rightarrow> int \<Rightarrow> date result" where
  "date_new y m d =
     (if \<not> (MINYEAR \<le> y \<and> y \<le> MAXYEAR) then Inl ValueError
      else if \<not> (1 \<le> m \<and> m \<le> 12) then Inl ValueError
      else if \<not> (1 \<le> d \<and> d \<le> days_in_month y m) then Inl ValueError
      else Inr \<lparr>year = y, month = m, day = d\<rparr>)"

text \<open>\<^verbatim>\<open>self.replace(year=y)\<close> constructs a new date from the changed fields.\<close>

definition replace_year :: "date \<Rightarrow> int \<Rightarrow> date result" where
  "replace_year self y = date_new y (month self) (day self)"

definition toordinal :: "date \<Rightarrow> int" where
  "toordinal self = ymd2ord (year self) (month self) (day self)"

definition fromordinal :: "int \<Rightarrow> date result" where
  "fromordinal n = (case ord2ymd n of (y, m, d) \<Rightarrow> date_new y m d)"

text \<open>\<^verbatim>\<open>weekday()\<close>: Monday is 0 and Sunday is 6.\<close>

definition weekday :: "date \<Rightarrow> int" where
  "weekday self = (toordinal self + 6) mod 7"

text \<open>\<^verbatim>\<open>a < b\<close> on dates compares the triples of year, month and day.\<close>

definition date_lt :: "date \<Rightarrow> date \<Rightarrow> bool" where
  "date_lt a b =
     (year a < year b \<or> (year a = year b \<and>
        (month a < month b \<or> (month a = month b \<and> day a < day b))))"

text \<open>\<^verbatim>\<open>(a - b).days\<close>.\<close>

definition date_sub_days :: "date \<Rightarrow> date \<Rightarrow> int" where
  "date_sub_days a b = toordinal a - toordinal b"

text \<open>\<^verbatim>\<open>self + timedelta(days=n)\<close>: \<^verbatim>\<open>OverflowError\<close> outside the range of dates.\<close>

definition date_add_days :: "date \<Rightarrow> int \<Rightarrow> date result" where
  "date_add_days self days =
     (let o' = toordinal self + days
      in if 0 < o' \<and> o' \<le> MAXORDINAL then fromordinal o' else Inl OverflowError)"

text \<open>
  \<^verbatim>\<open>strftime("%d.%m.%Y")\<close>: day and month with two digits, the year with four
  (for a year below 1000 the padding of \<^verbatim>\<open>%Y\<close> depends on the platform's C library;
  the model pads with zeros).
\<close>

definition digit_chr :: "int \<Rightarrow> char" where
  "digit_chr n = ''0123456789'' ! nat n"

definition zero_pad2 :: "int \<Rightarrow> string" where
  "zero_pad2 n = [digit_chr (n div 10 mod 10), digit_chr (n mod 10)]"

definition zero_pad4 :: "int \<Rightarrow> string" where
  "zero_pad4 n = [digit_chr (n div 1000 mod 10), digit_chr (n div 100 mod 10),
                  digit_chr (n div 10 mod 10), digit_chr (n mod 10)]"

definition strftime :: "date \<Rightarrow> string" where
  "strftime self = zero_pad2 (day self) @ ''.'' @ zero_pad2 (month self) @ ''.'' @ zero_pad4 (year self)"

subsection \<open>Parsing with the format \<^verbatim>\<open>%d.%m.%Y\<close>\<close>

text \<open>
  \<^verbatim>\<open>datetime.strptime\<close> turns the format into a regular expression and matches it
  at the start of the string:
  \<^verbatim>\<open>(?P<d>3[0-1]|[1-2]\d|0[1-9]|[1-9]| [1-9])\.(?P<m>1[0-2]|0[1-9]|[1-9])\.(?P<Y>\d\d\d\d)\<close>.
  A matcher returns the ways it can match a prefix of the string, in the order a
  backtracking engine tries them, each with the text matched and the rest.  Among
  the code points 0 to 255, \<^verbatim>\<open>\d\<close> matches \<^verbatim>\<open>0\<close> to \<^verbatim>\<open>9\<close> only.
\<close>

type_synonym matcher = "string \<Rightarrow> (string \<times> string) list"

definition re_lit :: "char \<Rightarrow> matcher" where
  "re_lit ch s = (case s of [] \<Rightarrow> [] | x # rest \<Rightarrow> if x = ch then [([x], rest)] else [])"

definition re_cls :: "(char \<Rightarrow> bool) \<Rightarrow> matcher" where
  "re_cls P s = (case s of [] \<Rightarrow> [] | x # rest \<Rightarrow> if P x then [([x], rest)] else [])"

definition re_seq :: "matcher \<Rightarrow> matcher \<Rightarrow> matcher" where
  "re_seq p q s = concat (map (\<lambda>(a, r1). map (\<lambda>(b, r2). (a @ b, r2)) (q r1)) (p s))"

definition re_alt :: "matcher \<Rightarrow> matcher \<Rightarrow> matcher" where
  "re_alt p q s = p s @ q s"

definition in_range :: "char \<Rightarrow> char \<Rightarrow> char \<Rightarrow> bool" where
  "in_range lo hi ch = ((of_char lo :: nat) \<le> of_char ch \<and> (of_char ch :: nat) \<le> of_char hi)"

definition re_digit :: "char \<Rightarrow> bool" where
  "re_digit = in_range CHR ''0'' CHR ''9''"

definition group_d :: matcher where
  "group_d =
     re_alt (re_seq (re_lit CHR ''3'') (re_cls (in_range CHR ''0'' CHR ''1'')))
    (re_alt (re_seq (re_cls (in_range CHR ''1'' CHR ''2'')) (re_cls re_digit))
    (re_alt (re_seq (re_lit CHR ''0'') (re_cls (in_range CHR ''1'' CHR ''9'')))
    (re_alt (re_cls (in_range CHR ''1'' CHR ''9''))
            (re_seq (re_lit CHR '' '') (re_cls (in_range CHR ''1'' CHR ''9''))))))"

definition group_m :: matcher where
  "group_m =
     re_alt (re_seq (re_lit CHR ''1'') (re_cls (in_range CHR ''0'' CHR ''2'')))
    (re_alt (re_seq (re_lit CHR ''0'') (re_cls (in_range CHR ''1'' CHR ''9'')))
            (re_cls (in_range CHR ''1'' CHR ''9'')))"

definition group_Y :: matcher where
  "group_Y = re_seq (re_cls re_digit) (re_seq (re_cls re_digit) (re_seq (re_cls re_digit) (re_cls re_digit)))"

text \<open>The first match of the whole expression: the three groups and what follows the match.\<close>

definition format_regex_match :: "string \<Rightarrow> (string \<times> string \<times> string \<times> string) option" where
  "format_regex_match s =
     (case concat (map (\<lambda>(d, r1).
             concat (map (\<lambda>(_, r2).
               concat (map (\<lambda>(m, r3).
                 concat (map (\<lambda>(_, r4).
                   map (\<lambda>(y, r5). (d, m, y, r5)) (group_Y r4))
                 (re_lit CHR ''.'' r3)))
               (group_m r2)))
             (re_lit CHR ''.'' r1)))
           (group_d s)) of
        [] \<Rightarrow> None
      | found # _ \<Rightarrow> Some found)"

text \<open>\<^verbatim>\<open>int\<close> of a matched group: decimal digits, after a blank that \<^verbatim>\<open>int\<close> ignores.\<close>

definition py_int :: "string \<Rightarrow> int" where
  "py_int s =
     foldl (\<lambda>acc ch. 10 * acc + (int (of_char ch) - 48)) 0 (dropWhile (\<lambda>ch. ch = CHR '' '') s)"

text \<open>
  \<^verbatim>\<open>datetime.strptime(value, "%d.%m.%Y")\<close>, as far as the date goes: \<^verbatim>\<open>ValueError\<close>
  when the string does not match, when text remains after the match, and when year,
  month and day are not a date.
\<close>

definition strptime :: "string \<Rightarrow> date result" where
  "strptime data_string =
     (case format_regex_match data_string of
        None \<Rightarrow> Inl ValueError
      | Some (d, m, y, rest) \<Rightarrow>
          if rest \<noteq> [] then Inl ValueError
          else date_new (py_int y) (py_int m) (py_int d))"

section \<open>Fields\<close>

text \<open>
  \<^verbatim>\<open>Phone.__init__\<close>: keeps the value when it has length 10 and \<^verbatim>\<open>isdigit()\<close>
  holds, and raises \<^verbatim>\<open>ValueError\<close> otherwise.  A \<open>Phone\<close> object is represented by
  its \<open>value\<close>.
\<close>

definition Phone :: "string \<Rightarrow> string result" where
  "Phone v = (if length v = 10 \<and> isdigit v then Inr v else Inl ValueError)"

text \<open>
  \<^verbatim>\<open>Birthday.__init__\<close>: keeps the string as it is when \<^verbatim>\<open>strptime\<close> accepts it; the
  parsed date is dropped.  Any \<^verbatim>\<open>ValueError\<close> is raised again as a \<^verbatim>\<open>ValueError\<close>.
\<close>

definition Birthday :: "string \<Rightarrow> string result" where
  "Birthday v = (case strptime v of Inl _ \<Rightarrow> Inl ValueError | Inr _ \<Rightarrow> Inr v)"

section \<open>Record\<close>

record Record =
  name :: string
  phones :: "string list"
  birthday :: "string option"

definition Record_init :: "string \<Rightarrow> Record" where
  "Record_init n = \<lparr>name = n, phones = [], birthday = None\<rparr>"

definition add_phone :: "string \<Rightarrow> Record \<Rightarrow> unit result \<times> Record" where
  "add_phone phone self =
     (case Phone phone of
        Inl e \<Rightarrow> (Inl e, self)
      | Inr p \<Rightarrow> (Inr (), self\<lparr>phones := phones self @ [p]\<rparr>))"

text \<open>The loop of \<^verbatim>\<open>find_phone\<close>: the first phone object whose value is the argument.\<close>

fun find_phone_loop :: "string list \<Rightarrow> string \<Rightarrow> string option" where
  "find_phone_loop [] phone = None"
| "find_phone_loop (phone_obj # rest) phone =
     (if phone_obj = phone then Some phone_obj else find_phone_loop rest phone)"

definition find_phone :: "Record \<Rightarrow> string \<Rightarrow> string option" where
  "find_phone self phone = find_phone_loop (phones self) phone"

text \<open>
  \<^verbatim>\<open>remove_phone\<close> is \<^verbatim>\<open>self.phones.remove(self.find_phone(phone))\<close>.  When
  \<^verbatim>\<open>find_phone\<close> returns \<^verbatim>\<open>None\<close>, \<^verbatim>\<open>list.remove(None)\<close> raises \<^verbatim>\<open>ValueError\<close>,
  no element of the list being \<^verbatim>\<open>None\<close>.  Otherwise the object found is the first
  one of the list with that value, and \<^verbatim>\<open>list.remove\<close> deletes that first
  occurrence.
\<close>

definition remove_phone :: "string \<Rightarrow> Record \<Rightarrow> unit result \<times> Record" where
  "remove_phone phone self =
     (case find_phone self phone of
        None \<Rightarrow> (Inl ValueError, self)
      | Some phone_obj \<Rightarrow> (Inr (), self\<lparr>phones := remove1 phone_obj (phones self)\<rparr>))"

text \<open>
  \<^verbatim>\<open>edit_phone\<close>: a phone object is always true in a condition, so the test is on
  \<^verbatim>\<open>find_phone\<close> having found one.  An exception of \<^verbatim>\<open>add_phone\<close> ends the call
  before \<^verbatim>\<open>remove_phone\<close> runs.
\<close>

definition edit_phone :: "string \<Rightarrow> string \<Rightarrow> Record \<Rightarrow> unit result \<times> Record" where
  "edit_phone old_phone new_phone self =
     (case find_phone self old_phone of
        Some _ \<Rightarrow>
          (case add_phone new_phone self of
             (Inl e, self') \<Rightarrow> (Inl e, self')
           | (Inr _, self') \<Rightarrow> remove_phone old_phone self')
      | None \<Rightarrow> (Inl ValueError, self))"

definition add_birthday :: "string \<Rightarrow> Record \<Rightarrow> unit result \<times> Record" where
  "add_birthday b self =
     (case Birthday b of
        Inl e \<Rightarrow> (Inl e, self)
      | Inr v \<Rightarrow> (Inr (), self\<lparr>birthday := Some v\<rparr>))"

text \<open>
  The mutating methods of a record as a datatype of calls, and a sequence of calls run
  from a state.  A call that raises leaves the state it leaves, and the next call goes
  on from there, as a caller that catches the exception sees it.
\<close>

datatype record_call =
    AddPhone string
  | RemovePhone string
  | EditPhone string string
  | AddBirthday string

fun call :: "record_call \<Rightarrow> Record \<Rightarrow> unit result \<times> Record" where
  "call (AddPhone p) self = add_phone p self"
| "call (RemovePhone p) self = remove_phone p self"
| "call (EditPhone old new) self = edit_phone old new self"
| "call (AddBirthday b) self = add_birthday b self"

fun run_calls :: "record_call list \<Rightarrow> Record \<Rightarrow> Record" where
  "run_calls [] self = self"
| "run_calls (c # cs) self = run_calls cs (snd (call c self))"

section \<open>AddressBook\<close>

text \<open>
  The dictionary \<^verbatim>\<open>data\<close> of the book, from names to records, is an association list
  in insertion order: assigning to a key that is present keeps its place, and a new key
  goes to the end.
\<close>

type_synonym AddressBook = "(string \<times> Record) list"

definition add_record :: "Record \<Rightarrow> AddressBook \<Rightarrow> AddressBook" where
  "add_record record data = AList.update (name record) record data"

definition find_record :: "AddressBook \<Rightarrow> string \<Rightarrow> Record option" where
  "find_record data n = map_of data n"

definition delete_record :: "string \<Rightarrow> AddressBook \<Rightarrow> AddressBook" where
  "delete_record n data = (if n \<in> fst ` set data then AList.delete n data else data)"

subsection \<open>Upcoming birthdays\<close>

text \<open>
  \<^verbatim>\<open>get_upcoming_birthdays\<close> reads the clock once; the date it reads is the
  parameter \<open>today\<close>.  The body of its loop is split by the source's lines:
  \<open>birthday_this_year\<close> is the projection into this year or the next (lines 127 to 130),
  \<open>congratulation_date\<close> the move of a weekend date to Monday (lines 133 to 135), and
  \<open>upcoming_entry\<close> the whole body for one record: nothing to append, an entry to
  append, or the exception that ends the call.
\<close>

definition birthday_this_year :: "date \<Rightarrow> date \<Rightarrow> date result" where
  "birthday_this_year today birthday_date =
     (case replace_year birthday_date (year today) of
        Inl e \<Rightarrow> Inl e
      | Inr this_year \<Rightarrow>
          if date_lt this_year today then replace_year birthday_date (year today + 1)
          else Inr this_year)"

definition congratulation_date :: "date \<Rightarrow> date result" where
  "congratulation_date d =
     (if weekday d \<ge> 5 then date_add_days d (7 - weekday d) else Inr d)"

definition upcoming_entry :: "date \<Rightarrow> Record \<Rightarrow> (string \<times> string) option result" where
  "upcoming_entry today record =
     (case birthday record of
        None \<Rightarrow> Inr None
      | Some v \<Rightarrow>
          (case strptime v of
             Inl e \<Rightarrow> Inl e
           | Inr birthday_date \<Rightarrow>
               (case birthday_this_year today birthday_date of
                  Inl e \<Rightarrow> Inl e
                | Inr d \<Rightarrow>
                    if 0 \<le> date_sub_days d today \<and> date_sub_days d today \<le> 7
                    then (case congratulation_date d of
                            Inl e \<Rightarrow> Inl e
                          | Inr c \<Rightarrow> Inr (Some (name record, strftime c)))
                    else Inr None)))"

text \<open>
  The loop over \<^verbatim>\<open>self.data.values()\<close> with the list \<^verbatim>\<open>upcoming_birthdays\<close> it
  appends to.  An entry \<^verbatim>\<open>{"name": n, "birthday": s}\<close> is the pair \<open>(n, s)\<close>.
\<close>

fun upcoming_loop ::
  "date \<Rightarrow> Record list \<Rightarrow> (string \<times> string) list \<Rightarrow> (string \<times> string) list result" where
  "upcoming_loop today [] upcoming_birthdays = Inr upcoming_birthdays"
| "upcoming_loop today (record # rest) upcoming_birthdays =
     (case upcoming_entry today record of
        Inl e \<Rightarrow> Inl e
      | Inr None \<Rightarrow> upcoming_loop today rest upcoming_birthdays
      | Inr (Some entry) \<Rightarrow> upcoming_loop today rest (upcoming_birthdays @ [entry]))"

definition get_upcoming_birthdays :: "date \<Rightarrow> AddressBook \<Rightarrow> (string \<times> string) list result" where
  "get_upcoming_birthdays today data = upcoming_loop today (map snd data) []"

section \<open>Persistence\<close>

text \<open>
  Modelled from the spec: \<^verbatim>\<open>pickle.dump\<close> and \<^verbatim>\<open>pickle.load\<close>, which are the
  standard library's and not code of this repository.  The specification calls the
  persisted format internal and opaque and requires of it only that it is a single
  serialized blob of the address book that round-trips exactly.  The model fixes one
  such format over bytes: a number is written in unary and closed by \<^verbatim>\<open>0\<close>, a string
  is its length and its characters, a list is its length and its elements, and a
  record is its name, its phones and its birthday (a list of none or one string).
  Loading reads the blob back and raises \<^verbatim>\<open>UnpicklingError\<close> on bytes that are no
  blob of a book.
\<close>

definition enc_nat :: "nat \<Rightarrow> string" where
  "enc_nat n = replicate n CHR ''1'' @ [CHR ''0'']"

fun dec_nat :: "string \<Rightarrow> (nat \<times> string) option" where
  "dec_nat [] = None"
| "dec_nat (c # cs) =
     (if c = CHR ''0'' then Some (0, cs)
      else if c = CHR ''1''
        then (case dec_nat cs of None \<Rightarrow> None | Some (n, rest) \<Rightarrow> Some (Suc n, rest))
      else None)"

definition enc_str :: "string \<Rightarrow> string" where
  "enc_str s = enc_nat (length s) @ s"

definition dec_str :: "string \<Rightarrow> (string \<times> string) option" where
  "dec_str bs =
     (case dec_nat bs of
        None \<Rightarrow> None
      | Some (n, rest) \<Rightarrow> if length rest < n then None else Some (take n rest, drop n rest))"

definition enc_strs :: "string list \<Rightarrow> string" where
  "enc_strs xs = enc_nat (length xs) @ concat (map enc_str xs)"

fun dec_n_strs :: "nat \<Rightarrow> string \<Rightarrow> (string list \<times> string) option" where
  "dec_n_strs 0 bs = Some ([], bs)"
| "dec_n_strs (Suc n) bs =
     (case dec_str bs of
        None \<Rightarrow> None
      | Some (x, rest) \<Rightarrow>
          (case dec_n_strs n rest of
             None \<Rightarrow> None
           | Some (xs, rest') \<Rightarrow> Some (x # xs, rest')))"

definition dec_strs :: "string \<Rightarrow> (string list \<times> string) option" where
  "dec_strs bs =
     (case dec_nat bs of None \<Rightarrow> None | Some (n, rest) \<Rightarrow> dec_n_strs n rest)"

definition enc_record :: "Record \<Rightarrow> string" where
  "enc_record r =
     enc_str (name r) @ enc_strs (phones r)
       @ enc_strs (case birthday r of None \<Rightarrow> [] | Some b \<Rightarrow> [b])"

definition dec_record :: "string \<Rightarrow> (Record \<times> string) option" where
  "dec_record bs =
     (case dec_str bs of
        None \<Rightarrow> None
      | Some (n, r1) \<Rightarrow>
          (case dec_strs r1 of
             None \<Rightarrow> None
           | Some (ps, r2) \<Rightarrow>
               (case dec_strs r2 of
                  Some ([], r3) \<Rightarrow> Some (\<lparr>name = n, phones = ps, birthday = None\<rparr>, r3)
                | Some ([b], r3) \<Rightarrow> Some (\<lparr>name = n, phones = ps, birthday = Some b\<rparr>, r3)
                | _ \<Rightarrow> None)))"

definition enc_item :: "string \<times> Record \<Rightarrow> string" where
  "enc_item kv = enc_str (fst kv) @ enc_record (snd kv)"

definition dec_item :: "string \<Rightarrow> ((string \<times> Record) \<times> string) option" where
  "dec_item bs =
     (case dec_str bs of
        None \<Rightarrow> None
      | Some (k, r1) \<Rightarrow>
          (case dec_record r1 of None \<Rightarrow> None | Some (r, r2) \<Rightarrow> Some ((k, r), r2)))"

fun dec_n_items :: "nat \<Rightarrow> string \<Rightarrow> (AddressBook \<times> string) option" where
  "dec_n_items 0 bs = Some ([], bs)"
| "dec_n_items (Suc n) bs =
     (case dec_item bs of
        None \<Rightarrow> None
      | Some (x, rest) \<Rightarrow>
          (case dec_n_items n rest of
             None \<Rightarrow> None
           | Some (xs, rest') \<Rightarrow> Some (x # xs, rest')))"

text \<open>
  Modelled from the spec: \<^verbatim>\<open>pickle.dump(book, f)\<close>, the blob written for a book.
\<close>

definition pickle_dump :: "AddressBook \<Rightarrow> string" where
  "pickle_dump book = enc_nat (length book) @ concat (map enc_item book)"

text \<open>
  Modelled from the spec: \<^verbatim>\<open>pickle.load(f)\<close>, the book read from the blob at the
  start of the file; what follows the blob is not read.
\<close>

definition pickle_load :: "string \<Rightarrow> AddressBook result" where
  "pickle_load bs =
     (case dec_nat bs of
        None \<Rightarrow> Inl UnpicklingError
      | Some (n, rest) \<Rightarrow>
          (case dec_n_items n rest of
             None \<Rightarrow> Inl UnpicklingError
           | Some (book, _) \<Rightarrow> Inr book))"

text \<open>
  The files are a map from paths to contents.  \<^verbatim>\<open>save_data\<close> opens the path for
  writing, which creates or replaces the file, and dumps the book into it.
  \<^verbatim>\<open>load_data\<close> loads the book from the file at the path and returns a new, empty
  \<^verbatim>\<open>AddressBook()\<close> when opening raises \<^verbatim>\<open>FileNotFoundError\<close>.  Both have the
  default path \<^verbatim>\<open>addressbook.pkl\<close>.  Other failures of the file system are left
  out, as the specification leaves them.
\<close>

type_synonym files = "string \<Rightarrow> string option"

definition default_filename :: string where
  "default_filename = ''addressbook.pkl''"

definition save_data :: "AddressBook \<Rightarrow> string \<Rightarrow> files \<Rightarrow> files" where
  "save_data book filename fs = fs(filename := Some (pickle_dump book))"

definition load_data :: "string \<Rightarrow> files \<Rightarrow> AddressBook result" where
  "load_data filename fs =
     (case fs filename of
        None \<Rightarrow> Inr []
      | Some bs \<Rightarrow> pickle_load bs)"

section \<open>Terms of the specification\<close>

text \<open>
  The dates that the constructor \<open>date_new\<close> accepts; every \<^verbatim>\<open>date\<close> object of
  the program is one of them.
\<close>

definition valid_date :: "date \<Rightarrow> bool" where
  "valid_date d =
     (MINYEAR \<le> year d \<and> year d \<le> MAXYEAR \<and> 1 \<le> month d \<and> month d \<le> 12
      \<and> 1 \<le> day d \<and> day d \<le> days_in_month (year d) (month d))"

text \<open>
  The month and day that \<open>ord2ymd\<close> computes from the offset of a day in its year,
  as a function of its own, for stating that the estimate is right.
\<close>

definition month_day :: "int \<Rightarrow> bool \<Rightarrow> int \<times> int" where
  "month_day n leapyear =
     (let mth = (n + 50) div 32;
          preceding = DAYS_BEFORE_MONTH ! nat mth + (if mth > 2 \<and> leapyear then 1 else 0)
      in if preceding > n
         then let mth = mth - 1;
                  preceding = preceding - (DAYS_IN_MONTH ! nat mth + (if mth = 2 \<and> leapyear then 1 else 0))
              in (mth, n - preceding + 1)
         else (mth, n - preceding + 1))"

text \<open>
  The data invariant as the code checks it: every stored phone has length 10 and
  consists of characters that \<^verbatim>\<open>str.isdigit\<close> accepts, and a stored birthday is
  accepted by \<open>strptime\<close>.
\<close>

definition record_invariant :: "Record \<Rightarrow> bool" where
  "record_invariant r =
     (list_all (\<lambda>p. length p = 10 \<and> list_all isdigit_char p) (phones r)
      \<and> (case birthday r of
            None \<Rightarrow> True
          | Some b \<Rightarrow> (case strptime b of Inl _ \<Rightarrow> False | Inr _ \<Rightarrow> True)))"

text \<open>
  The terms of the specification, for stating what the loop computes.  The projected
  date of a record is what lines 126 to 130 compute for it: nothing for a record
  without a birthday, a date, or the exception raised on the way.  A record is in the
  window when its projected date lies between today and seven days after today, both
  included.  A record projects when the way to its projected date raises nothing.  The
  entry list of a record holds what the body of the loop appends for it.
\<close>

definition projected_date :: "date \<Rightarrow> Record \<Rightarrow> date option result" where
  "projected_date today r =
     (case birthday r of
        None \<Rightarrow> Inr None
      | Some v \<Rightarrow>
          (case strptime v of
             Inl e \<Rightarrow> Inl e
           | Inr b \<Rightarrow>
               (case birthday_this_year today b of
                  Inl e \<Rightarrow> Inl e
                | Inr d \<Rightarrow> Inr (Some d))))"

definition projects :: "date \<Rightarrow> Record \<Rightarrow> bool" where
  "projects today r = (case projected_date today r of Inl _ \<Rightarrow> False | Inr _ \<Rightarrow> True)"

definition in_window :: "date \<Rightarrow> Record \<Rightarrow> bool" where
  "in_window today r =
     (case projected_date today r of
        Inr (Some d) \<Rightarrow> toordinal today \<le> toordinal d \<and> toordinal d \<le> toordinal today + 7
      | _ \<Rightarrow> False)"

definition entry_list :: "date \<Rightarrow> Record \<Rightarrow> (string \<times> string) list" where
  "entry_list today r = (case upcoming_entry today r of Inr (Some e) \<Rightarrow> [e] | _ \<Rightarrow> [])"

section \<open>Phones: helper facts\<close>

lemma find_phone_loop_None: "(find_phone_loop ps p = None) = (p \<notin> set ps)"
  by (induction ps) auto

lemma find_phone_loop_Some: "(find_phone_loop ps p = Some q) = (q = p \<and> p \<in> set ps)"
  by (induction ps) auto

lemma find_phone_None: "(find_phone r p = None) = (p \<notin> set (phones r))"
  by (simp add: find_phone_def find_phone_loop_None)

lemma find_phone_Some: "(find_phone r p = Some q) = (q = p \<and> p \<in> set (phones r))"
  by (simp add: find_phone_def find_phone_loop_Some)

lemma Phone_Inr: "(Phone s = Inr v) = (v = s \<and> length s = 10 \<and> list_all isdigit_char s)"
  by (auto simp: Phone_def isdigit_def)

lemma Phone_Inl: "(Phone s = Inl e) = (e = ValueError \<and> \<not> (length s = 10 \<and> list_all isdigit_char s))"
  by (auto simp: Phone_def isdigit_def)

lemma add_phone_valid:
  "length p = 10 \<Longrightarrow> list_all isdigit_char p \<Longrightarrow>
   add_phone p r = (Inr (), r\<lparr>phones := phones r @ [p]\<rparr>)"
  by (auto simp: add_phone_def Phone_def isdigit_def)

lemma add_phone_invalid:
  "\<not> (length p = 10 \<and> list_all isdigit_char p) \<Longrightarrow> add_phone p r = (Inl ValueError, r)"
  by (auto simp: add_phone_def Phone_def isdigit_def)

lemma remove_phone_present:
  "p \<in> set (phones r) \<Longrightarrow> remove_phone p r = (Inr (), r\<lparr>phones := remove1 p (phones r)\<rparr>)"
  by (auto simp: remove_phone_def find_phone_Some find_phone_None split: option.splits)

lemma remove_phone_absent:
  "p \<notin> set (phones r) \<Longrightarrow> remove_phone p r = (Inl ValueError, r)"
  by (auto simp: remove_phone_def find_phone_Some find_phone_None split: option.splits)

lemma remove1_append_mem: "x \<in> set xs \<Longrightarrow> remove1 x (xs @ ys) = remove1 x xs @ ys"
  by (simp add: remove1_append)

lemma of_char_digit:
  assumes "(of_char c :: nat) = of_char d"
  shows "c = d"
  using assms by (simp only: of_char_eq_iff)

lemma isdigit_char_ascii:
  assumes "(of_char c :: nat) < 128"
  shows "isdigit_char c = (c \<in> set ''0123456789'')"
proof
  assume "isdigit_char c"
  with assms have "48 \<le> (of_char c :: nat) \<and> (of_char c :: nat) \<le> 57"
    by (auto simp: isdigit_char_def Let_def)
  then have "(of_char c :: nat) = 48 \<or> (of_char c :: nat) = 49 \<or> (of_char c :: nat) = 50
    \<or> (of_char c :: nat) = 51 \<or> (of_char c :: nat) = 52 \<or> (of_char c :: nat) = 53
    \<or> (of_char c :: nat) = 54 \<or> (of_char c :: nat) = 55 \<or> (of_char c :: nat) = 56
    \<or> (of_char c :: nat) = 57"
    by arith
  then have "c = CHR ''0'' \<or> c = CHR ''1'' \<or> c = CHR ''2'' \<or> c = CHR ''3'' \<or> c = CHR ''4''
    \<or> c = CHR ''5'' \<or> c = CHR ''6'' \<or> c = CHR ''7'' \<or> c = CHR ''8'' \<or> c = CHR ''9''"
    by (elim disjE) (simp_all add: of_char_digit)
  then show "c \<in> set ''0123456789''" by auto
next
  assume "c \<in> set ''0123456789''"
  then have "c = CHR ''0'' \<or> c = CHR ''1'' \<or> c = CHR ''2'' \<or> c = CHR ''3'' \<or> c = CHR ''4''
    \<or> c = CHR ''5'' \<or> c = CHR ''6'' \<or> c = CHR ''7'' \<or> c = CHR ''8'' \<or> c = CHR ''9''"
    by auto
  then show "isdigit_char c"
    by (elim disjE) (simp_all add: isdigit_char_def)
qed

section \<open>Phone validation\<close>

text \<open>
  What the validation accepts.  Constructing a \<open>Phone\<close> from a string \<open>s\<close> succeeds
  exactly when \<open>s\<close> has length 10 and \<^verbatim>\<open>str.isdigit\<close> classifies every character of
  it as a digit character; otherwise it raises \<^verbatim>\<open>ValueError\<close>, and \<open>add_phone\<close>
  follows it.  For a string of ASCII characters the digit characters are \<^verbatim>\<open>0\<close> to
  \<^verbatim>\<open>9\<close>.  The strings \<^verbatim>\<open>12345\<close>, \<^verbatim>\<open>12345678901\<close> and \<^verbatim>\<open>12345abcde\<close> all fail.
\<close>

lemma Phone_accepts_iff:
  "(Phone s = Inr s) = (length s = 10 \<and> list_all isdigit_char s)
   \<and> (Phone s = Inl ValueError) = (\<not> (length s = 10 \<and> list_all isdigit_char s))
   \<and> (add_phone s r = (Inr (), r\<lparr>phones := phones r @ [s]\<rparr>))
        = (length s = 10 \<and> list_all isdigit_char s)
   \<and> (fst (add_phone s r) = Inl ValueError) = (\<not> (length s = 10 \<and> list_all isdigit_char s))
   \<and> (list_all (\<lambda>c. (of_char c :: nat) < 128) s \<longrightarrow>
        (Phone s = Inr s) = (length s = 10 \<and> list_all (\<lambda>c. c \<in> set ''0123456789'') s))
   \<and> Phone ''12345'' = Inl ValueError
   \<and> Phone ''12345678901'' = Inl ValueError
   \<and> Phone ''12345abcde'' = Inl ValueError"
proof -
  have ex: "Phone ''12345'' = Inl ValueError \<and> Phone ''12345678901'' = Inl ValueError
    \<and> Phone ''12345abcde'' = Inl ValueError"
    by (simp add: Phone_def isdigit_def isdigit_char_def)
  have gen: "(Phone s = Inr s) = (length s = 10 \<and> list_all isdigit_char s)
   \<and> (Phone s = Inl ValueError) = (\<not> (length s = 10 \<and> list_all isdigit_char s))
   \<and> (add_phone s r = (Inr (), r\<lparr>phones := phones r @ [s]\<rparr>))
        = (length s = 10 \<and> list_all isdigit_char s)
   \<and> (fst (add_phone s r) = Inl ValueError) = (\<not> (length s = 10 \<and> list_all isdigit_char s))"
  proof (cases "length s = 10 \<and> list_all isdigit_char s")
    case True
    then show ?thesis by (simp add: Phone_Inr Phone_Inl add_phone_valid)
  next
    case False
    then show ?thesis by (simp add: Phone_Inr Phone_Inl add_phone_invalid)
  qed
  have ascii: "list_all (\<lambda>c. (of_char c :: nat) < 128) s \<longrightarrow>
        (Phone s = Inr s) = (length s = 10 \<and> list_all (\<lambda>c. c \<in> set ''0123456789'') s)"
  proof
    assume "list_all (\<lambda>c. (of_char c :: nat) < 128) s"
    then have "list_all isdigit_char s = list_all (\<lambda>c. c \<in> set ''0123456789'') s"
      by (induction s) (simp_all add: isdigit_char_ascii)
    then show "(Phone s = Inr s) = (length s = 10 \<and> list_all (\<lambda>c. c \<in> set ''0123456789'') s)"
      by (simp add: Phone_Inr)
  qed
  from gen ascii ex show ?thesis by blast
qed

text \<open>
  C5.  The specification lets a phone validate exactly when it consists of ten digits.
  The code accepts more: the string of ten characters SUPERSCRIPT TWO (code point 178,
  hexadecimal B2) has length 10 and \<^verbatim>\<open>isdigit()\<close> holds for it, so \<open>Phone\<close> accepts it
  and \<open>add_phone\<close> stores it, though none of its characters is one of \<^verbatim>\<open>0\<close> to
  \<^verbatim>\<open>9\<close>.
\<close>

theorem C5_superscript_phone_accepted:
  "length (replicate 10 (CHR 0xB2)) = 10
   \<and> isdigit (replicate 10 (CHR 0xB2))
   \<and> list_all (\<lambda>c. c \<notin> set ''0123456789'') (replicate 10 (CHR 0xB2))
   \<and> Phone (replicate 10 (CHR 0xB2)) = Inr (replicate 10 (CHR 0xB2))
   \<and> add_phone (replicate 10 (CHR 0xB2)) (Record_init ''Ann'')
       = (Inr (), \<lparr>name = ''Ann'', phones = [replicate 10 (CHR 0xB2)], birthday = None\<rparr>)"
  by code_simp

section \<open>Editing, finding and removing phones\<close>

text \<open>
  C6.  \<open>edit_phone old new\<close> raises \<^verbatim>\<open>ValueError\<close>, leaving the record as it was,
  when \<open>old\<close> is not among the record's phones.  When \<open>old\<close> is among them and
  \<open>new\<close> passes the phone validation, the call succeeds: \<open>new\<close> is appended and
  then the first occurrence of \<open>old\<close> is removed, which is the list without that
  occurrence of \<open>old\<close>, followed by \<open>new\<close>.  When \<open>old\<close> is among them and
  \<open>new\<close> does not pass the validation, the call raises \<^verbatim>\<open>ValueError\<close>.
\<close>

theorem C6_edit_phone:
  "(old \<notin> set (phones r) \<longrightarrow> edit_phone old new r = (Inl ValueError, r))
   \<and> (old \<in> set (phones r) \<and> length new = 10 \<and> list_all isdigit_char new \<longrightarrow>
        edit_phone old new r = (Inr (), r\<lparr>phones := remove1 old (phones r @ [new])\<rparr>)
        \<and> remove1 old (phones r @ [new]) = remove1 old (phones r) @ [new])
   \<and> (old \<in> set (phones r) \<and> \<not> (length new = 10 \<and> list_all isdigit_char new) \<longrightarrow>
        fst (edit_phone old new r) = Inl ValueError)"
proof (intro conjI impI)
  assume "old \<notin> set (phones r)"
  then have "find_phone r old = None"
    by (simp add: find_phone_None)
  then show "edit_phone old new r = (Inl ValueError, r)"
    by (simp add: edit_phone_def)
next
  assume a: "old \<in> set (phones r) \<and> length new = 10 \<and> list_all isdigit_char new"
  then obtain q where q: "find_phone r old = Some q"
    by (auto simp: find_phone_Some)
  from a have ap: "add_phone new r = (Inr (), r\<lparr>phones := phones r @ [new]\<rparr>)"
    by (simp add: add_phone_valid)
  from a have "old \<in> set (phones (r\<lparr>phones := phones r @ [new]\<rparr>))"
    by simp
  then have "remove_phone old (r\<lparr>phones := phones r @ [new]\<rparr>)
      = (Inr (), r\<lparr>phones := remove1 old (phones r @ [new])\<rparr>)"
    by (simp add: remove_phone_present)
  with q ap show "edit_phone old new r = (Inr (), r\<lparr>phones := remove1 old (phones r @ [new])\<rparr>)"
    by (simp add: edit_phone_def)
  from a show "remove1 old (phones r @ [new]) = remove1 old (phones r) @ [new]"
    by (simp add: remove1_append_mem)
next
  assume a: "old \<in> set (phones r) \<and> \<not> (length new = 10 \<and> list_all isdigit_char new)"
  then obtain q where q: "find_phone r old = Some q"
    by (auto simp: find_phone_Some)
  from a have "add_phone new r = (Inl ValueError, r)"
    by (simp add: add_phone_invalid)
  with q show "fst (edit_phone old new r) = Inl ValueError"
    by (simp add: edit_phone_def)
qed

theorem C6_edit_phone_witness:
  "edit_phone ''0501234567'' ''0679876543''
       \<lparr>name = ''Ann'', phones = [''0501234567'', ''0931112233''], birthday = None\<rparr>
     = (Inr (), \<lparr>name = ''Ann'', phones = [''0931112233'', ''0679876543''], birthday = None\<rparr>)
   \<and> edit_phone ''0440000000'' ''0679876543''
       \<lparr>name = ''Ann'', phones = [''0501234567'', ''0931112233''], birthday = None\<rparr>
     = (Inl ValueError,
        \<lparr>name = ''Ann'', phones = [''0501234567'', ''0931112233''], birthday = None\<rparr>)
   \<and> fst (edit_phone ''0501234567'' ''12345''
       \<lparr>name = ''Ann'', phones = [''0501234567'', ''0931112233''], birthday = None\<rparr>)
     = Inl ValueError"
proof -
  let ?r = "\<lparr>name = ''Ann'', phones = [''0501234567'', ''0931112233''], birthday = None\<rparr>"
  have h1: "''0501234567'' \<in> set (phones ?r) \<and> length ''0679876543'' = 10
      \<and> list_all isdigit_char ''0679876543''"
    by (simp add: isdigit_char_def)
  have h2: "''0440000000'' \<notin> set (phones ?r)"
    by simp
  have h3: "''0501234567'' \<in> set (phones ?r)
      \<and> \<not> (length ''12345'' = 10 \<and> list_all isdigit_char ''12345'')"
    by simp
  have e: "?r\<lparr>phones := remove1 ''0501234567'' (phones ?r @ [''0679876543''])\<rparr>
      = \<lparr>name = ''Ann'', phones = [''0931112233'', ''0679876543''], birthday = None\<rparr>"
    by simp
  from h1 C6_edit_phone [of "''0501234567''" ?r "''0679876543''"]
  have a: "edit_phone ''0501234567'' ''0679876543'' ?r
      = (Inr (), ?r\<lparr>phones := remove1 ''0501234567'' (phones ?r @ [''0679876543''])\<rparr>)"
    by blast
  from h2 C6_edit_phone [of "''0440000000''" ?r "''0679876543''"]
  have b: "edit_phone ''0440000000'' ''0679876543'' ?r = (Inl ValueError, ?r)"
    by blast
  from h3 C6_edit_phone [of "''0501234567''" ?r "''12345''"]
  have c: "fst (edit_phone ''0501234567'' ''12345'' ?r) = Inl ValueError"
    by blast
  from a e have a': "edit_phone ''0501234567'' ''0679876543'' ?r
      = (Inr (), \<lparr>name = ''Ann'', phones = [''0931112233'', ''0679876543''], birthday = None\<rparr>)"
    by (simp only:)
  from a' b c show ?thesis by blast
qed

text \<open>
  C8.  When \<open>old\<close> is among the record's phones and \<open>new\<close> does not pass the phone
  validation, \<open>edit_phone old new\<close> raises \<^verbatim>\<open>ValueError\<close> and leaves the record
  exactly as it was: its phone list is unchanged, \<open>old\<close> is still in it, and
  \<open>new\<close> was not appended.
\<close>

theorem C8_edit_phone_atomic:
  assumes "old \<in> set (phones r)"
    and "\<not> (length new = 10 \<and> list_all isdigit_char new)"
  shows "edit_phone old new r = (Inl ValueError, r)
    \<and> phones (snd (edit_phone old new r)) = phones r
    \<and> old \<in> set (phones (snd (edit_phone old new r)))"
proof -
  from assms(1) obtain q where q: "find_phone r old = Some q"
    by (auto simp: find_phone_Some)
  from assms(2) have "add_phone new r = (Inl ValueError, r)"
    by (simp add: add_phone_invalid)
  with q have "edit_phone old new r = (Inl ValueError, r)"
    by (simp add: edit_phone_def)
  with assms(1) show ?thesis by simp
qed

theorem C8_edit_phone_atomic_witness:
  "edit_phone ''0501234567'' ''12345abcde''
       \<lparr>name = ''Bob'', phones = [''0501234567''], birthday = None\<rparr>
     = (Inl ValueError, \<lparr>name = ''Bob'', phones = [''0501234567''], birthday = None\<rparr>)"
proof -
  let ?r = "\<lparr>name = ''Bob'', phones = [''0501234567''], birthday = None\<rparr>"
  have h1: "''0501234567'' \<in> set (phones ?r)"
    by simp
  have h2: "\<not> (length ''12345abcde'' = 10 \<and> list_all isdigit_char ''12345abcde'')"
    by (simp add: isdigit_char_def)
  from C8_edit_phone_atomic [OF h1 h2] show ?thesis by blast
qed

text \<open>
  C9, as the specification states it, fails: \<^verbatim>\<open>add_phone\<close> does not look for
  duplicates and \<^verbatim>\<open>remove_phone\<close> removes one occurrence only.  On a record that
  already holds \<open>p\<close>, adding \<open>p\<close> and removing \<open>p\<close> leaves one \<open>p\<close> behind, and
  \<^verbatim>\<open>find_phone\<close> still returns it.
\<close>

theorem C9_add_remove_find_counterexample:
  "Phone ''0501234567'' = Inr ''0501234567''
   \<and> fst (add_phone ''0501234567''
          \<lparr>name = ''Ann'', phones = [''0501234567''], birthday = None\<rparr>) = Inr ()
   \<and> fst (remove_phone ''0501234567'' (snd (add_phone ''0501234567''
          \<lparr>name = ''Ann'', phones = [''0501234567''], birthday = None\<rparr>))) = Inr ()
   \<and> find_phone (snd (remove_phone ''0501234567'' (snd (add_phone ''0501234567''
          \<lparr>name = ''Ann'', phones = [''0501234567''], birthday = None\<rparr>)))) ''0501234567''
       = Some ''0501234567''"
  by code_simp

text \<open>
  C9, amended.  For every record and every phone \<open>p\<close> that passes the validation,
  adding \<open>p\<close> succeeds and finding \<open>p\<close> afterwards returns \<open>p\<close>; removing \<open>p\<close>
  then succeeds, and finding \<open>p\<close> after the removal returns none exactly when
  \<open>p\<close> was not among the record's phones before it was added.
\<close>

theorem C9_add_remove_find:
  assumes "length p = 10 \<and> list_all isdigit_char p"
  shows "fst (add_phone p r) = Inr ()
    \<and> find_phone (snd (add_phone p r)) p = Some p
    \<and> fst (remove_phone p (snd (add_phone p r))) = Inr ()
    \<and> (find_phone (snd (remove_phone p (snd (add_phone p r)))) p = None)
        = (p \<notin> set (phones r))"
proof -
  from assms have ap: "add_phone p r = (Inr (), r\<lparr>phones := phones r @ [p]\<rparr>)"
    by (simp add: add_phone_valid)
  have rp: "remove_phone p (r\<lparr>phones := phones r @ [p]\<rparr>)
      = (Inr (), r\<lparr>phones := remove1 p (phones r @ [p])\<rparr>)"
    by (simp add: remove_phone_present)
  have "(p \<notin> set (remove1 p (phones r @ [p]))) = (p \<notin> set (phones r))"
  proof (cases "p \<in> set (phones r)")
    case True
    then show ?thesis by (simp add: remove1_append_mem)
  next
    case False
    then show ?thesis by (simp add: remove1_append remove1_idem)
  qed
  with ap rp show ?thesis
    by (simp add: find_phone_Some find_phone_None)
qed

theorem C9_add_remove_find_witness:
  "find_phone (snd (add_phone ''0501234567'' (Record_init ''Ann''))) ''0501234567''
     = Some ''0501234567''
   \<and> find_phone (snd (remove_phone ''0501234567''
        (snd (add_phone ''0501234567'' (Record_init ''Ann''))))) ''0501234567'' = None"
proof -
  have v: "length ''0501234567'' = 10 \<and> list_all isdigit_char ''0501234567''"
    by (simp add: isdigit_char_def)
  have n: "''0501234567'' \<notin> set (phones (Record_init ''Ann''))"
    by (simp add: Record_init_def)
  from n C9_add_remove_find [OF v, of "Record_init ''Ann''"] show ?thesis by blast
qed

section \<open>The calendar\<close>

text \<open>
  Facts about the library's calendar functions: \<open>ord2ymd\<close> inverts \<open>ymd2ord\<close> on
  the ordinals of dates, the ordinal grows with the order of dates, and the ordinals of
  dates lie between 1 and \<open>MAXORDINAL\<close>.
\<close>

lemma month_cases:
  "1 \<le> m \<Longrightarrow> m \<le> 12 \<Longrightarrow>
   m = 1 \<or> m = 2 \<or> m = 3 \<or> m = 4 \<or> m = 5 \<or> m = 6 \<or> m = 7 \<or> m = 8 \<or> m = 9
   \<or> m = 10 \<or> m = 11 \<or> m = (12::int)"
  by arith

lemma DAYS_IN_MONTH_nth:
  "1 \<le> m \<Longrightarrow> m \<le> 12 \<Longrightarrow>
   DAYS_IN_MONTH ! nat m =
     (if m = 2 then 28 else if m = 4 \<or> m = 6 \<or> m = 9 \<or> m = 11 then 30 else 31)"
  using month_cases [of m] by (auto simp: DAYS_IN_MONTH_def)

lemma DAYS_BEFORE_MONTH_nth:
  "1 \<le> m \<Longrightarrow> m \<le> 12 \<Longrightarrow>
   DAYS_BEFORE_MONTH ! nat m =
     (if m = 1 then 0 else if m = 2 then 31 else if m = 3 then 59 else if m = 4 then 90
      else if m = 5 then 120 else if m = 6 then 151 else if m = 7 then 181
      else if m = 8 then 212 else if m = 9 then 243 else if m = 10 then 273
      else if m = 11 then 304 else 334)"
  using month_cases [of m] by (auto simp: DAYS_BEFORE_MONTH_def)

lemma DI_values: "DI400Y = 146097" "DI100Y = 36524" "DI4Y = 1461"
  by (simp_all add: DI400Y_def DI100Y_def DI4Y_def days_before_year_def)

lemma div_step:
  assumes k: "0 < k"
  shows "(y::int) div k = (y - 1) div k + (if y mod k = 0 then 1 else 0)"
proof -
  define q where "q = (y - 1) div k"
  define r where "r = (y - 1) mod k"
  have y: "y = k * q + (r + 1)" unfolding q_def r_def by simp
  have r: "0 \<le> r" "r < k" using k unfolding r_def by simp_all
  show ?thesis
  proof (cases "r + 1 < k")
    case True
    with r y have "y div k = q" by (intro int_div_pos_eq [where r = "r + 1"]) simp_all
    moreover from True r y have "y mod k = r + 1" by (intro int_mod_pos_eq [where q = q]) simp_all
    ultimately show ?thesis using r q_def by simp
  next
    case False
    with r have e: "r + 1 = k" by simp
    with y have y': "y = k * (q + 1) + 0" by (simp add: algebra_simps)
    from y' k have "y div k = q + 1" by (intro int_div_pos_eq [where r = 0]) simp_all
    moreover from y' k have "y mod k = 0" by (intro int_mod_pos_eq [where q = "q + 1"]) simp_all
    ultimately show ?thesis using q_def by simp
  qed
qed

lemma mod_400_100: "(y::int) mod 400 = 0 \<Longrightarrow> y mod 100 = 0"
proof -
  assume "y mod 400 = 0"
  then have "400 dvd y" by (simp add: mod_eq_0_iff_dvd)
  moreover have "(100::int) dvd 400" by simp
  ultimately have "100 dvd y" by (rule dvd_trans [rotated])
  then show ?thesis by (simp add: mod_eq_0_iff_dvd)
qed

lemma mod_100_4: "(y::int) mod 100 = 0 \<Longrightarrow> y mod 4 = 0"
proof -
  assume "y mod 100 = 0"
  then have "100 dvd y" by (simp add: mod_eq_0_iff_dvd)
  moreover have "(4::int) dvd 100" by simp
  ultimately have "4 dvd y" by (rule dvd_trans [rotated])
  then show ?thesis by (simp add: mod_eq_0_iff_dvd)
qed

lemma div_step_same: "0 < k \<Longrightarrow> (y::int) mod k \<noteq> 0 \<Longrightarrow> y div k = (y - 1) div k"
  using div_step [of k y] by simp

lemma div_step_next: "0 < k \<Longrightarrow> (y::int) mod k = 0 \<Longrightarrow> y div k = (y - 1) div k + 1"
  using div_step [of k y] by simp

lemma days_before_year_diff:
  "days_before_year (y + 1) - days_before_year y
      = 365 + (y div 4 - (y - 1) div 4) - (y div 100 - (y - 1) div 100) + (y div 400 - (y - 1) div 400)"
proof -
  have "days_before_year (y + 1) = y * 365 + y div 4 - y div 100 + y div 400"
    unfolding days_before_year_def Let_def by simp
  moreover have "days_before_year y
      = (y - 1) * 365 + (y - 1) div 4 - (y - 1) div 100 + (y - 1) div 400"
    unfolding days_before_year_def Let_def by (rule refl)
  moreover have "(y - 1) * 365 = y * 365 - 365" by (simp add: left_diff_distrib)
  ultimately show ?thesis by linarith
qed

lemma days_before_year_Suc:
  "days_before_year (y + 1) = days_before_year y + (if is_leap y then 366 else 365)"
proof -
  note d = days_before_year_diff [of y]
  show ?thesis
  proof (cases "y mod 4 = 0")
    case False
    then have m: "y mod 100 \<noteq> 0" "y mod 400 \<noteq> 0"
      using mod_100_4 [of y] mod_400_100 [of y] by auto
    from False have l: "\<not> is_leap y" by (simp add: is_leap_def)
    have "y div 4 = (y - 1) div 4" using False by (intro div_step_same) simp_all
    moreover have "y div 100 = (y - 1) div 100" using m by (intro div_step_same) simp_all
    moreover have "y div 400 = (y - 1) div 400" using m by (intro div_step_same) simp_all
    ultimately have "days_before_year (y + 1) - days_before_year y = 365"
      using d by linarith
    with l show ?thesis by simp
  next
    case T4: True
    show ?thesis
    proof (cases "y mod 100 = 0")
      case False
      then have m: "y mod 400 \<noteq> 0" using mod_400_100 [of y] by auto
      from T4 False have l: "is_leap y" by (simp add: is_leap_def)
      have "y div 4 = (y - 1) div 4 + 1" using T4 by (intro div_step_next) simp_all
      moreover have "y div 100 = (y - 1) div 100" using False by (intro div_step_same) simp_all
      moreover have "y div 400 = (y - 1) div 400" using m by (intro div_step_same) simp_all
      ultimately have "days_before_year (y + 1) - days_before_year y = 366"
        using d by linarith
      with l show ?thesis by simp
    next
      case T100: True
      show ?thesis
      proof (cases "y mod 400 = 0")
        case False
        from T4 T100 False have l: "\<not> is_leap y" by (simp add: is_leap_def)
        have "y div 4 = (y - 1) div 4 + 1" using T4 by (intro div_step_next) simp_all
        moreover have "y div 100 = (y - 1) div 100 + 1" using T100 by (intro div_step_next) simp_all
        moreover have "y div 400 = (y - 1) div 400" using False by (intro div_step_same) simp_all
        ultimately have "days_before_year (y + 1) - days_before_year y = 365"
          using d by linarith
        with l show ?thesis by simp
      next
        case True
        from T4 T100 True have l: "is_leap y" by (simp add: is_leap_def)
        have "y div 4 = (y - 1) div 4 + 1" using T4 by (intro div_step_next) simp_all
        moreover have "y div 100 = (y - 1) div 100 + 1" using T100 by (intro div_step_next) simp_all
        moreover have "y div 400 = (y - 1) div 400 + 1" using True by (intro div_step_next) simp_all
        ultimately have "days_before_year (y + 1) - days_before_year y = 366"
          using d by linarith
        with l show ?thesis by simp
      qed
    qed
  qed
qed

lemma days_before_year_mono: "y \<le> y' \<Longrightarrow> days_before_year y \<le> days_before_year y'"
proof (induction y' rule: int_ge_induct)
  case base
  show ?case by simp
next
  case (step i)
  have "days_before_year i \<le> days_before_year (i + 1)"
    by (simp add: days_before_year_Suc)
  with step show ?case by linarith
qed

lemma days_before_year_next:
  "y < y' \<Longrightarrow> days_before_year y + (if is_leap y then 366 else 365) \<le> days_before_year y'"
  using days_before_year_mono [of "y + 1" y'] by (simp add: days_before_year_Suc)

lemma d4: "0 \<le> e \<Longrightarrow> e \<le> 3 \<Longrightarrow> (400 * a + 100 * b + 4 * c + e) div 4 = 100 * a + 25 * b + (c::int)"
  by arith

lemma d100: "0 \<le> c \<Longrightarrow> c \<le> 24 \<Longrightarrow> 0 \<le> e \<Longrightarrow> e \<le> 3 \<Longrightarrow>
    (400 * a + 100 * b + 4 * c + e) div 100 = 4 * a + (b::int)"
  by arith

lemma d400: "0 \<le> b \<Longrightarrow> b \<le> 3 \<Longrightarrow> 0 \<le> c \<Longrightarrow> c \<le> 24 \<Longrightarrow> 0 \<le> e \<Longrightarrow> e \<le> 3 \<Longrightarrow>
    (400 * a + 100 * b + 4 * c + e) div 400 = (a::int)"
  by arith

lemma days_before_year_decomp:
  assumes "0 \<le> b" "b \<le> 3" "0 \<le> c" "c \<le> 24" "0 \<le> e" "e \<le> 3"
  shows "days_before_year (400 * a + 100 * b + 4 * c + e + 1)
    = 146097 * a + 36524 * b + 1461 * c + 365 * e"
  using assms by (simp add: days_before_year_def Let_def d4 d100 d400)

lemma days_before_year_10000: "days_before_year 10000 = 3652059"
  by (simp add: days_before_year_def)

lemma days_before_year_1: "days_before_year 1 = 0"
  by (simp add: days_before_year_def)

lemma mod_from_div: "(x::int) div k = q \<Longrightarrow> x mod k = x - k * q"
  by (auto simp: minus_mult_div_eq_mod)

lemma is_leap_decomp:
  assumes "0 \<le> b" "b \<le> 3" "0 \<le> c" "c \<le> 24" "0 \<le> e" "e \<le> 3"
  shows "is_leap (400 * a + 100 * b + 4 * c + e + 1) = (e = 3 \<and> (c \<noteq> 24 \<or> b = 3))"
proof -
  let ?Y = "400 * a + 100 * b + 4 * c + e + 1"
  consider (e2) "e \<le> 2" | (c23) "e = 3" "c \<le> 23" | (b2) "e = 3" "c = 24" "b \<le> 2"
    | (b3) "e = 3" "c = 24" "b = 3"
    using assms by linarith
  then show ?thesis
  proof cases
    case e2
    have Y: "?Y = 400 * a + 100 * b + 4 * c + (e + 1)" by simp
    have "?Y div 4 = 100 * a + 25 * b + c"
      unfolding Y using assms e2 by (intro d4) simp_all
    then have "?Y mod 4 = ?Y - 4 * (100 * a + 25 * b + c)" by (rule mod_from_div)
    then have "?Y mod 4 = e + 1" by simp
    with assms have "?Y mod 4 \<noteq> 0" by simp
    with e2 show ?thesis by (simp add: is_leap_def)
  next
    case c23
    have Y: "?Y = 400 * a + 100 * b + 4 * (c + 1) + 0" using c23 by simp
    have "?Y div 4 = 100 * a + 25 * b + (c + 1)"
      unfolding Y by (rule d4) simp_all
    then have "?Y mod 4 = ?Y - 4 * (100 * a + 25 * b + (c + 1))" by (rule mod_from_div)
    then have m4: "?Y mod 4 = 0" using c23 by simp
    have "?Y div 100 = 4 * a + b"
      unfolding Y using assms c23 by (intro d100) simp_all
    then have "?Y mod 100 = ?Y - 100 * (4 * a + b)" by (rule mod_from_div)
    then have "?Y mod 100 = 4 * (c + 1)" using c23 by simp
    with assms have "?Y mod 100 \<noteq> 0" by simp
    with m4 c23 show ?thesis by (simp add: is_leap_def)
  next
    case b2
    have Y: "?Y = 400 * a + 100 * (b + 1) + 4 * 0 + 0" using b2 by simp
    have "?Y div 4 = 100 * a + 25 * (b + 1) + 0"
      unfolding Y by (rule d4) simp_all
    then have "?Y mod 4 = ?Y - 4 * (100 * a + 25 * (b + 1) + 0)" by (rule mod_from_div)
    then have m4: "?Y mod 4 = 0" using b2 by simp
    have "?Y div 100 = 4 * a + (b + 1)"
      unfolding Y by (rule d100) simp_all
    then have "?Y mod 100 = ?Y - 100 * (4 * a + (b + 1))" by (rule mod_from_div)
    then have m100: "?Y mod 100 = 0" using b2 by simp
    have "?Y div 400 = a"
      unfolding Y using assms b2 by (intro d400) simp_all
    then have "?Y mod 400 = ?Y - 400 * a" by (rule mod_from_div)
    then have "?Y mod 400 = 100 * (b + 1)" using b2 by simp
    with assms have "?Y mod 400 \<noteq> 0" by simp
    with m4 m100 b2 show ?thesis by (simp add: is_leap_def)
  next
    case b3
    have Y: "?Y = 400 * (a + 1) + 100 * 0 + 4 * 0 + 0" using b3 by simp
    have "?Y div 4 = 100 * (a + 1) + 25 * 0 + 0"
      unfolding Y by (rule d4) simp_all
    then have "?Y mod 4 = ?Y - 4 * (100 * (a + 1) + 25 * 0 + 0)" by (rule mod_from_div)
    then have m4: "?Y mod 4 = 0" using b3 by simp
    have "?Y div 400 = a + 1"
      unfolding Y by (rule d400) simp_all
    then have "?Y mod 400 = ?Y - 400 * (a + 1)" by (rule mod_from_div)
    then have m400: "?Y mod 400 = 0" using b3 by simp
    with m4 b3 show ?thesis by (simp add: is_leap_def)
  qed
qed

lemma case_prod_if:
  "(case (if c then (a, b) else (a', b')) of (m, d) \<Rightarrow> f m d) = (if c then f a b else f a' b')"
  by simp

lemma ord2ymd_unfold:
  "ord2ymd n0 =
     (let n = n0 - 1;
          a = n div 146097; r = n mod 146097;
          b = r div 36524; r2 = r mod 36524;
          c = r2 div 1461; r3 = r2 mod 1461;
          e = r3 div 365; r4 = r3 mod 365
      in if e = 4 \<or> b = 4 then (a * 400 + 1 + (b * 100 + c * 4 + e) - 1, 12, 31)
         else (case month_day r4 (e = 3 \<and> (c \<noteq> 24 \<or> b = 3)) of
                 (m, d) \<Rightarrow> (a * 400 + 1 + (b * 100 + c * 4 + e), m, d)))"
  unfolding ord2ymd_def month_day_def Let_def DI_values case_prod_if by (rule refl)

lemma month_day_correct:
  assumes "0 \<le> n" "n \<le> 364" "month_day n L = (m, d)"
  shows "1 \<le> m \<and> m \<le> 12 \<and> 1 \<le> d
    \<and> d \<le> DAYS_IN_MONTH ! nat m + (if m = 2 \<and> L then 1 else 0)
    \<and> DAYS_BEFORE_MONTH ! nat m + (if m > 2 \<and> L then 1 else 0) + d = n + 1"
proof -
  define m0 where "m0 = (n + 50) div 32"
  note md = assms(3) [unfolded month_day_def Let_def, folded m0_def]
  have b: "32 * m0 \<le> n + 50" "n + 50 < 32 * m0 + 32"
    unfolding m0_def by arith+
  with assms(1,2) have "1 \<le> m0" "m0 \<le> 12" by arith+
  then have "m0 = 1 \<or> m0 = 2 \<or> m0 = 3 \<or> m0 = 4 \<or> m0 = 5 \<or> m0 = 6 \<or> m0 = 7 \<or> m0 = 8
    \<or> m0 = 9 \<or> m0 = 10 \<or> m0 = 11 \<or> m0 = 12"
    by (rule month_cases)
  then show ?thesis
  proof (elim disjE)
    assume "m0 = 1" with md b assms(1,2) show ?thesis
      by (auto simp: DAYS_BEFORE_MONTH_def DAYS_IN_MONTH_def split: if_splits)
  next
    assume "m0 = 2" with md b assms(1,2) show ?thesis
      by (auto simp: DAYS_BEFORE_MONTH_def DAYS_IN_MONTH_def split: if_splits)
  next
    assume "m0 = 3" with md b assms(1,2) show ?thesis
      by (auto simp: DAYS_BEFORE_MONTH_def DAYS_IN_MONTH_def split: if_splits)
  next
    assume "m0 = 4" with md b assms(1,2) show ?thesis
      by (auto simp: DAYS_BEFORE_MONTH_def DAYS_IN_MONTH_def split: if_splits)
  next
    assume "m0 = 5" with md b assms(1,2) show ?thesis
      by (auto simp: DAYS_BEFORE_MONTH_def DAYS_IN_MONTH_def split: if_splits)
  next
    assume "m0 = 6" with md b assms(1,2) show ?thesis
      by (auto simp: DAYS_BEFORE_MONTH_def DAYS_IN_MONTH_def split: if_splits)
  next
    assume "m0 = 7" with md b assms(1,2) show ?thesis
      by (auto simp: DAYS_BEFORE_MONTH_def DAYS_IN_MONTH_def split: if_splits)
  next
    assume "m0 = 8" with md b assms(1,2) show ?thesis
      by (auto simp: DAYS_BEFORE_MONTH_def DAYS_IN_MONTH_def split: if_splits)
  next
    assume "m0 = 9" with md b assms(1,2) show ?thesis
      by (auto simp: DAYS_BEFORE_MONTH_def DAYS_IN_MONTH_def split: if_splits)
  next
    assume "m0 = 10" with md b assms(1,2) show ?thesis
      by (auto simp: DAYS_BEFORE_MONTH_def DAYS_IN_MONTH_def split: if_splits)
  next
    assume "m0 = 11" with md b assms(1,2) show ?thesis
      by (auto simp: DAYS_BEFORE_MONTH_def DAYS_IN_MONTH_def split: if_splits)
  next
    assume "m0 = 12" with md b assms(1,2) show ?thesis
      by (auto simp: DAYS_BEFORE_MONTH_def DAYS_IN_MONTH_def split: if_splits)
  qed
qed

lemma days_in_month_12: "days_in_month y 12 = 31"
  by (simp add: days_in_month_def DAYS_IN_MONTH_def)

lemma days_before_month_12: "days_before_month y 12 = (if is_leap y then 335 else 334)"
  by (simp add: days_before_month_def DAYS_BEFORE_MONTH_def)

lemma year_below_10000:
  assumes "days_before_year y < MAXORDINAL"
  shows "y \<le> 9999"
proof (rule ccontr)
  assume "\<not> y \<le> 9999"
  then have "10000 \<le> y" by simp
  then have "days_before_year 10000 \<le> days_before_year y" by (rule days_before_year_mono)
  with assms show False by (simp add: days_before_year_10000 MAXORDINAL_def)
qed

lemma ord2ymd_correct:
  assumes n0: "1 \<le> n0" "n0 \<le> MAXORDINAL" and res: "ord2ymd n0 = (y, m, d)"
  shows "1 \<le> y \<and> y \<le> 9999 \<and> 1 \<le> m \<and> m \<le> 12 \<and> 1 \<le> d \<and> d \<le> days_in_month y m
    \<and> ymd2ord y m d = n0"
proof -
  define N where "N = n0 - 1"
  define a where "a = N div 146097"
  define r where "r = N mod 146097"
  define b where "b = r div 36524"
  define r2 where "r2 = r mod 36524"
  define c where "c = r2 div 1461"
  define r3 where "r3 = r2 mod 1461"
  define e where "e = r3 div 365"
  define r4 where "r4 = r3 mod 365"
  note res' = res [unfolded ord2ymd_unfold Let_def, folded N_def, folded a_def r_def,
      folded b_def r2_def, folded c_def r3_def, folded e_def r4_def]
  have N: "0 \<le> N" "N < MAXORDINAL" using n0 by (simp_all add: N_def)
  have eqN: "N = 146097 * a + r" unfolding a_def r_def by simp
  have r: "0 \<le> r" "r < 146097" unfolding r_def by simp_all
  have eqr: "r = 36524 * b + r2" unfolding b_def r2_def by simp
  have r2: "0 \<le> r2" "r2 < 36524" unfolding r2_def by simp_all
  have eqr2: "r2 = 1461 * c + r3" unfolding c_def r3_def by simp
  have r3: "0 \<le> r3" "r3 < 1461" unfolding r3_def by simp_all
  have eqr3: "r3 = 365 * e + r4" unfolding e_def r4_def by simp
  have r4: "0 \<le> r4" "r4 < 365" unfolding r4_def by simp_all
  have a: "0 \<le> a" using N eqN r by linarith
  have b: "0 \<le> b" "b \<le> 4" using eqr r r2 by linarith+
  have c: "0 \<le> c" "c \<le> 24" using eqr2 r2 r3 by linarith+
  have e: "0 \<le> e" "e \<le> 4" using eqr3 r3 r4 by linarith+
  show ?thesis
  proof (cases "b = 4")
    case True
    with eqr r r2 have z: "r2 = 0" by linarith
    with eqr2 c r3 have "c = 0" "r3 = 0" by linarith+
    with eqr3 e r4 have "e = 0" by linarith
    from res' True \<open>c = 0\<close> \<open>e = 0\<close> have ymd: "y = 400 * a + 400" "m = 12" "d = 31"
      by simp_all
    have Y: "y = 400 * a + 100 * 3 + 4 * 24 + 3 + 1" using ymd by simp
    have dby: "days_before_year y = 146097 * a + 36524 * 3 + 1461 * 24 + 365 * 3"
      unfolding Y by (rule days_before_year_decomp) simp_all
    have "is_leap y = (3 = (3::int) \<and> (24 \<noteq> (24::int) \<or> 3 = (3::int)))"
      unfolding Y by (rule is_leap_decomp) simp_all
    then have leap: "is_leap y" by simp
    have eqN': "N = 146097 * a + 146096" using eqN eqr True z by simp
    have "days_before_year y < MAXORDINAL" using dby eqN' N by linarith
    then have "y \<le> 9999" by (rule year_below_10000)
    moreover have "1 \<le> y" using ymd a by simp
    moreover have "ymd2ord y m d = n0"
      using dby leap eqN' ymd(2,3)
      by (simp add: ymd2ord_def days_before_month_12 N_def)
    ultimately show ?thesis using ymd(2,3) by (simp add: days_in_month_12)
  next
    case b4: False
    with b have b3: "b \<le> 3" by simp
    show ?thesis
    proof (cases "e = 4")
      case True
      with eqr3 r3 r4 have z: "r4 = 0" by linarith
      from True z eqr3 eqr2 r2 have c23: "c \<le> 23" by linarith
      from res' True have ymd: "y = 400 * a + 100 * b + 4 * c + 4" "m = 12" "d = 31"
        by simp_all
      have Y: "y = 400 * a + 100 * b + 4 * c + 3 + 1" using ymd by simp
      have dby: "days_before_year y = 146097 * a + 36524 * b + 1461 * c + 365 * 3"
        unfolding Y using b b3 c by (intro days_before_year_decomp) simp_all
      have "is_leap y = (3 = (3::int) \<and> (c \<noteq> 24 \<or> b = 3))"
        unfolding Y using b b3 c by (intro is_leap_decomp) simp_all
      with c23 have leap: "is_leap y" by simp
      have eqN': "N = 146097 * a + 36524 * b + 1461 * c + 1460"
        using eqN eqr eqr2 eqr3 True z by simp
      have "days_before_year y < MAXORDINAL" using dby eqN' N by linarith
      then have "y \<le> 9999" by (rule year_below_10000)
      moreover have "1 \<le> y" using ymd a b c by simp
      moreover have "ymd2ord y m d = n0"
        using dby leap eqN' ymd(2,3)
        by (simp add: ymd2ord_def days_before_month_12 N_def)
      ultimately show ?thesis using ymd(2,3) by (simp add: days_in_month_12)
    next
      case e4: False
      with e have e3: "e \<le> 3" by simp
      define L where "L = (e = 3 \<and> (c \<noteq> 24 \<or> b = 3))"
      obtain m' d' where md: "month_day r4 L = (m', d')" by (cases "month_day r4 L") auto
      have res'': "(case month_day r4 L of (m, d) \<Rightarrow> (a * 400 + 1 + (b * 100 + c * 4 + e), m, d))
          = (y, m, d)"
        using res' b4 e4 unfolding L_def by (simp only: if_False simp_thms)
      from res'' md have ymd: "y = 400 * a + 100 * b + 4 * c + e + 1" "m = m'" "d = d'"
        by simp_all
      have dby: "days_before_year y = 146097 * a + 36524 * b + 1461 * c + 365 * e"
        unfolding ymd(1) using b b3 c e e3 by (intro days_before_year_decomp) simp_all
      have leap: "is_leap y = L"
        unfolding ymd(1) L_def using b b3 c e e3 by (intro is_leap_decomp) simp_all
      from r4 have "r4 \<le> 364" by simp
      with r4(1) md
      have mdc: "1 \<le> m' \<and> m' \<le> 12 \<and> 1 \<le> d'
        \<and> d' \<le> DAYS_IN_MONTH ! nat m' + (if m' = 2 \<and> L then 1 else 0)
        \<and> DAYS_BEFORE_MONTH ! nat m' + (if m' > 2 \<and> L then 1 else 0) + d' = r4 + 1"
        by (intro month_day_correct) simp_all
      have eqN': "N = 146097 * a + 36524 * b + 1461 * c + 365 * e + r4"
        using eqN eqr eqr2 eqr3 by simp
      have "days_before_year y < MAXORDINAL" using dby eqN' N r4 by linarith
      then have "y \<le> 9999" by (rule year_below_10000)
      moreover have "1 \<le> y" using ymd a b c e by simp
      moreover have "ymd2ord y m d = n0"
        using dby leap eqN' ymd(2,3) mdc
        by (simp add: ymd2ord_def days_before_month_def N_def)
      moreover have "d \<le> days_in_month y m"
        using mdc ymd(2,3) leap
        by (auto simp: days_in_month_def DAYS_IN_MONTH_def split: if_splits)
      ultimately show ?thesis using ymd(2,3) mdc by simp
    qed
  qed
qed

lemma days_before_month_step:
  assumes "1 \<le> m" "m \<le> 11"
  shows "days_before_month y (m + 1) = days_before_month y m + days_in_month y m"
proof -
  from assms have "m = 1 \<or> m = 2 \<or> m = 3 \<or> m = 4 \<or> m = 5 \<or> m = 6 \<or> m = 7 \<or> m = 8
    \<or> m = 9 \<or> m = 10 \<or> m = 11" by arith
  then show ?thesis
    by (elim disjE)
      (simp_all add: days_before_month_def days_in_month_def DAYS_BEFORE_MONTH_def DAYS_IN_MONTH_def)
qed

lemma days_in_month_pos: "1 \<le> m \<Longrightarrow> m \<le> 12 \<Longrightarrow> 28 \<le> days_in_month y m"
  by (simp add: days_in_month_def DAYS_IN_MONTH_nth)

lemma days_before_month_mono_aux:
  "m < m' \<Longrightarrow> 1 \<le> m \<Longrightarrow> m' \<le> 12 \<Longrightarrow>
   days_before_month y m + days_in_month y m \<le> days_before_month y m'"
proof (induction m' rule: int_gr_induct)
  case base
  then show ?case by (simp add: days_before_month_step)
next
  case (step i)
  from step.prems step.hyps have i: "1 \<le> i" "i \<le> 11" by simp_all
  then have "days_before_month y (i + 1) = days_before_month y i + days_in_month y i"
    by (rule days_before_month_step)
  moreover have "28 \<le> days_in_month y i" using i by (intro days_in_month_pos) simp_all
  moreover have "days_before_month y m + days_in_month y m \<le> days_before_month y i"
    using step by simp
  ultimately show ?case by linarith
qed

lemma days_before_month_1: "days_before_month y 1 = 0"
  by (simp add: days_before_month_def DAYS_BEFORE_MONTH_def)

lemma days_before_month_nonneg: "1 \<le> m \<Longrightarrow> m \<le> 12 \<Longrightarrow> 0 \<le> days_before_month y m"
  by (simp add: days_before_month_def DAYS_BEFORE_MONTH_nth)

lemma days_in_year_bound:
  assumes "1 \<le> m" "m \<le> 12"
  shows "days_before_month y m + days_in_month y m \<le> (if is_leap y then 366 else 365)"
proof (cases "m = 12")
  case True
  then show ?thesis by (simp add: days_before_month_12 days_in_month_12)
next
  case False
  with assms have "m < 12" by simp
  then have "days_before_month y m + days_in_month y m \<le> days_before_month y 12"
    using assms by (intro days_before_month_mono_aux) simp_all
  then show ?thesis by (simp add: days_before_month_12 split: if_splits)
qed

lemma toordinal_bounds:
  assumes "valid_date d"
  shows "1 \<le> toordinal d \<and> toordinal d \<le> MAXORDINAL"
proof -
  from assms have v: "1 \<le> year d" "year d \<le> 9999" "1 \<le> month d" "month d \<le> 12"
    "1 \<le> day d" "day d \<le> days_in_month (year d) (month d)"
    by (simp_all add: valid_date_def MINYEAR_def MAXYEAR_def)
  have "days_before_year 1 \<le> days_before_year (year d)"
    using v(1) by (rule days_before_year_mono)
  then have lo: "0 \<le> days_before_year (year d)" by (simp add: days_before_year_1)
  have "year d < 10000" using v(2) by simp
  then have "days_before_year (year d) + (if is_leap (year d) then 366 else 365)
      \<le> days_before_year 10000"
    by (rule days_before_year_next)
  then have hi: "days_before_year (year d) + (if is_leap (year d) then 366 else 365) \<le> MAXORDINAL"
    by (simp add: days_before_year_10000 MAXORDINAL_def)
  have m0: "0 \<le> days_before_month (year d) (month d)"
    using v(3,4) by (rule days_before_month_nonneg)
  have m1: "days_before_month (year d) (month d) + days_in_month (year d) (month d)
      \<le> (if is_leap (year d) then 366 else 365)"
    using v(3,4) by (rule days_in_year_bound)
  have "toordinal d = days_before_year (year d) + days_before_month (year d) (month d) + day d"
    by (simp add: toordinal_def ymd2ord_def)
  with lo hi m0 m1 v(5,6) show ?thesis
    by (auto split: if_splits)
qed

lemma toordinal_strict_mono:
  assumes "valid_date a" "valid_date b" "date_lt a b"
  shows "toordinal a < toordinal b"
proof -
  from assms(1) have va: "1 \<le> month a" "month a \<le> 12"
    "1 \<le> day a" "day a \<le> days_in_month (year a) (month a)"
    by (simp_all add: valid_date_def)
  from assms(2) have vb: "1 \<le> month b" "month b \<le> 12"
    "1 \<le> day b" "day b \<le> days_in_month (year b) (month b)"
    by (simp_all add: valid_date_def)
  have ta: "toordinal a = days_before_year (year a) + days_before_month (year a) (month a) + day a"
    by (simp add: toordinal_def ymd2ord_def)
  have tb: "toordinal b = days_before_year (year b) + days_before_month (year b) (month b) + day b"
    by (simp add: toordinal_def ymd2ord_def)
  from assms(3) consider (y) "year a < year b"
    | (m) "year a = year b" "month a < month b"
    | (d) "year a = year b" "month a = month b" "day a < day b"
    by (auto simp: date_lt_def)
  then show ?thesis
  proof cases
    case y
    then have "days_before_year (year a) + (if is_leap (year a) then 366 else 365)
        \<le> days_before_year (year b)"
      by (rule days_before_year_next)
    moreover have "days_before_month (year a) (month a) + days_in_month (year a) (month a)
        \<le> (if is_leap (year a) then 366 else 365)"
      using va(1,2) by (rule days_in_year_bound)
    moreover have "0 \<le> days_before_month (year b) (month b)"
      using vb(1,2) by (rule days_before_month_nonneg)
    ultimately show ?thesis using ta tb va vb by (auto split: if_splits)
  next
    case m
    then have "days_before_month (year a) (month a) + days_in_month (year a) (month a)
        \<le> days_before_month (year a) (month b)"
      using va(1) vb(2) by (intro days_before_month_mono_aux) simp_all
    with m ta tb va vb show ?thesis by simp
  next
    case d
    with ta tb show ?thesis by simp
  qed
qed

lemma date_lt_iff:
  assumes "valid_date a" "valid_date b"
  shows "date_lt a b = (toordinal a < toordinal b)"
proof
  assume "date_lt a b"
  with assms show "toordinal a < toordinal b" by (intro toordinal_strict_mono)
next
  assume lt: "toordinal a < toordinal b"
  show "date_lt a b"
  proof (rule ccontr)
    assume n: "\<not> date_lt a b"
    then have "date_lt b a \<or> (year a = year b \<and> month a = month b \<and> day a = day b)"
      by (auto simp: date_lt_def)
    then show False
    proof
      assume "date_lt b a"
      with assms have "toordinal b < toordinal a" by (intro toordinal_strict_mono)
      with lt show False by simp
    next
      assume "year a = year b \<and> month a = month b \<and> day a = day b"
      then have "toordinal a = toordinal b" by (simp add: toordinal_def)
      with lt show False by simp
    qed
  qed
qed

lemma toordinal_inj:
  assumes "valid_date a" "valid_date b" "toordinal a = toordinal b"
  shows "a = b"
proof -
  from assms have "\<not> date_lt a b" "\<not> date_lt b a"
    by (simp_all add: date_lt_iff)
  then have "year a = year b \<and> month a = month b \<and> day a = day b"
    by (auto simp: date_lt_def)
  then show ?thesis by simp
qed

lemma date_new_valid:
  "(date_new y m d = Inr x) =
     (x = \<lparr>year = y, month = m, day = d\<rparr> \<and> valid_date \<lparr>year = y, month = m, day = d\<rparr>)"
  by (auto simp: date_new_def valid_date_def)

lemma date_new_Inl:
  "(date_new y m d = Inl e) = (e = ValueError \<and> \<not> valid_date \<lparr>year = y, month = m, day = d\<rparr>)"
  by (auto simp: date_new_def valid_date_def)

lemma fromordinal_ok:
  assumes "1 \<le> n" "n \<le> MAXORDINAL"
  shows "\<exists>d. fromordinal n = Inr d \<and> valid_date d \<and> toordinal d = n"
proof -
  obtain y m d where o: "ord2ymd n = (y, m, d)" by (cases "ord2ymd n") auto
  with assms have c: "1 \<le> y \<and> y \<le> 9999 \<and> 1 \<le> m \<and> m \<le> 12 \<and> 1 \<le> d \<and> d \<le> days_in_month y m
    \<and> ymd2ord y m d = n"
    by (intro ord2ymd_correct) simp_all
  then have v: "valid_date \<lparr>year = y, month = m, day = d\<rparr>"
    by (simp add: valid_date_def MINYEAR_def MAXYEAR_def)
  then have "fromordinal n = Inr \<lparr>year = y, month = m, day = d\<rparr>"
    using o by (simp add: fromordinal_def date_new_valid)
  moreover have "toordinal \<lparr>year = y, month = m, day = d\<rparr> = n"
    using c by (simp add: toordinal_def)
  ultimately show ?thesis using v by blast
qed

lemma fromordinal_toordinal:
  assumes "valid_date d"
  shows "fromordinal (toordinal d) = Inr d"
proof -
  from assms have "1 \<le> toordinal d \<and> toordinal d \<le> MAXORDINAL" by (rule toordinal_bounds)
  then obtain d' where d': "fromordinal (toordinal d) = Inr d'" "valid_date d'"
    "toordinal d' = toordinal d"
    using fromordinal_ok [of "toordinal d"] by blast
  with assms have "d' = d" by (intro toordinal_inj) simp_all
  with d' show ?thesis by simp
qed

section \<open>The invariant of a record\<close>

lemma record_invariant_init: "record_invariant (Record_init n)"
  by (simp add: record_invariant_def Record_init_def)

lemma record_invariant_add_phone:
  "record_invariant r \<Longrightarrow> record_invariant (snd (add_phone p r))"
  by (cases "length p = 10 \<and> list_all isdigit_char p")
    (simp_all add: add_phone_valid add_phone_invalid record_invariant_def)

lemma list_all_remove1: "list_all P xs \<Longrightarrow> list_all P (remove1 x xs)"
  by (induction xs) auto

lemma record_invariant_remove_phone:
  "record_invariant r \<Longrightarrow> record_invariant (snd (remove_phone p r))"
  by (cases "p \<in> set (phones r)")
    (simp_all add: remove_phone_present remove_phone_absent record_invariant_def list_all_remove1)

lemma record_invariant_edit_phone:
  assumes "record_invariant r"
  shows "record_invariant (snd (edit_phone old new r))"
proof (cases "find_phone r old")
  case None
  with assms show ?thesis by (simp add: edit_phone_def)
next
  case (Some q)
  show ?thesis
  proof (cases "length new = 10 \<and> list_all isdigit_char new")
    case False
    then have "add_phone new r = (Inl ValueError, r)" by (rule add_phone_invalid)
    with Some assms show ?thesis by (simp add: edit_phone_def)
  next
    case True
    then have ap: "add_phone new r = (Inr (), r\<lparr>phones := phones r @ [new]\<rparr>)"
      by (simp add: add_phone_valid)
    from assms have "record_invariant (snd (add_phone new r))"
      by (rule record_invariant_add_phone)
    then have "record_invariant (snd (remove_phone old (snd (add_phone new r))))"
      by (rule record_invariant_remove_phone)
    with Some ap show ?thesis by (simp add: edit_phone_def)
  qed
qed

lemma Birthday_Inr: "(Birthday b = Inr v) = (v = b \<and> (\<exists>d. strptime b = Inr d))"
  by (auto simp: Birthday_def split: sum.splits)

lemma Birthday_Inl: "(Birthday b = Inl e) = (e = ValueError \<and> (\<exists>e'. strptime b = Inl e'))"
  by (auto simp: Birthday_def split: sum.splits)

lemma record_invariant_add_birthday:
  assumes "record_invariant r"
  shows "record_invariant (snd (add_birthday b r))"
proof (cases "Birthday b")
  case (Inl e)
  with assms show ?thesis by (simp add: add_birthday_def)
next
  case (Inr v)
  then have "v = b" "\<exists>d. strptime b = Inr d" by (simp_all add: Birthday_Inr)
  with Inr assms show ?thesis
    by (auto simp: add_birthday_def record_invariant_def)
qed

lemma record_invariant_call: "record_invariant r \<Longrightarrow> record_invariant (snd (call c r))"
  by (cases c)
    (simp_all add: record_invariant_add_phone record_invariant_remove_phone
      record_invariant_edit_phone record_invariant_add_birthday)

lemma record_invariant_run_calls:
  "record_invariant r \<Longrightarrow> record_invariant (run_calls cs r)"
  by (induction cs arbitrary: r) (simp_all add: record_invariant_call)

lemma strptime_leap_day: "strptime ''29.02.2024'' = Inr \<lparr>year = 2024, month = 2, day = 29\<rparr>"
  by code_simp

lemma strptime_31_02: "strptime ''31.02.2024'' = Inl ValueError"
  by code_simp

text \<open>
  Whatever calls of \<open>add_phone\<close>, \<open>remove_phone\<close>, \<open>edit_phone\<close> and
  \<open>add_birthday\<close> are made on a new record, with whatever arguments and whether
  they succeed or raise, the record they leave passes the checks of the code: every
  stored phone has length 10 and characters that \<^verbatim>\<open>str.isdigit\<close> accepts, and a
  stored birthday is a string that \<open>strptime\<close> parses with the format
  \<^verbatim>\<open>%d.%m.%Y\<close>.  The birthday \<^verbatim>\<open>29.02.2024\<close> is accepted and \<^verbatim>\<open>31.02.2024\<close> is
  rejected with \<^verbatim>\<open>ValueError\<close>.
\<close>

lemma record_invariant_reachable:
  "(\<forall>p \<in> set (phones (run_calls cs (Record_init n))). length p = 10 \<and> list_all isdigit_char p)
   \<and> (\<forall>b. birthday (run_calls cs (Record_init n)) = Some b \<longrightarrow> (\<exists>d. strptime b = Inr d))
   \<and> record_invariant (run_calls cs (Record_init n))
   \<and> Birthday ''29.02.2024'' = Inr ''29.02.2024''
   \<and> Birthday ''31.02.2024'' = Inl ValueError"
proof -
  let ?r = "run_calls cs (Record_init n)"
  have inv: "record_invariant ?r"
    by (rule record_invariant_run_calls) (rule record_invariant_init)
  from inv have p: "\<forall>p \<in> set (phones ?r). length p = 10 \<and> list_all isdigit_char p"
    by (simp add: record_invariant_def list_all_iff)
  have b: "\<forall>b. birthday ?r = Some b \<longrightarrow> (\<exists>d. strptime b = Inr d)"
  proof (intro allI impI)
    fix b assume "birthday ?r = Some b"
    with inv have "case strptime b of Inl _ \<Rightarrow> False | Inr _ \<Rightarrow> True"
      by (simp add: record_invariant_def)
    then show "\<exists>d. strptime b = Inr d"
      by (cases "strptime b") simp_all
  qed
  have ok: "Birthday ''29.02.2024'' = Inr ''29.02.2024''"
    unfolding Birthday_Inr using strptime_leap_day by blast
  have bad: "Birthday ''31.02.2024'' = Inl ValueError"
    unfolding Birthday_Inl using strptime_31_02 by blast
  from p b inv ok bad show ?thesis by blast
qed

text \<open>
  C7.  The specification's invariant says that every stored phone is a string of
  exactly ten digits.  It fails at a reachable state: one call of \<open>add_phone\<close> with
  the string of ten characters SUPERSCRIPT TWO (code point 178) on a new record
  succeeds and leaves that string among the phones, and it has no character from
  \<^verbatim>\<open>0\<close> to \<^verbatim>\<open>9\<close>.
\<close>

theorem C7_superscript_phone_stored:
  "fst (call (AddPhone (replicate 10 (CHR 0xB2))) (Record_init ''Ann'')) = Inr ()
   \<and> run_calls [AddPhone (replicate 10 (CHR 0xB2))] (Record_init ''Ann'')
       = \<lparr>name = ''Ann'', phones = [replicate 10 (CHR 0xB2)], birthday = None\<rparr>
   \<and> list_all (\<lambda>p. \<not> list_all (\<lambda>c. c \<in> set ''0123456789'') p)
        (phones (run_calls [AddPhone (replicate 10 (CHR 0xB2))] (Record_init ''Ann'')))"
  by code_simp

section \<open>A leap-day birthday in a common year\<close>

text \<open>
  C4.  The birthday \<^verbatim>\<open>29.02.2024\<close> passes the validation of \<open>Birthday\<close> and is stored by
  \<open>add_birthday\<close>; 2024 is a leap year.  On 1 January 2025, a date in a year that is not
  a leap year, the book that holds just this record makes
  \<open>get_upcoming_birthdays\<close> raise \<^verbatim>\<open>ValueError\<close> instead of returning a list: the
  projection of the parsed date into 2025, \<^verbatim>\<open>replace(year=2025)\<close>, raises it.
\<close>

theorem C4_leap_day_projection_raises:
  "add_birthday ''29.02.2024'' (Record_init ''Ann'')
     = (Inr (), \<lparr>name = ''Ann'', phones = [], birthday = Some ''29.02.2024''\<rparr>)
   \<and> record_invariant \<lparr>name = ''Ann'', phones = [], birthday = Some ''29.02.2024''\<rparr>
   \<and> strptime ''29.02.2024'' = Inr \<lparr>year = 2024, month = 2, day = 29\<rparr>
   \<and> is_leap 2024 \<and> \<not> is_leap 2025
   \<and> date_new 2025 1 1 = Inr \<lparr>year = 2025, month = 1, day = 1\<rparr>
   \<and> replace_year \<lparr>year = 2024, month = 2, day = 29\<rparr> 2025 = Inl ValueError
   \<and> birthday_this_year \<lparr>year = 2025, month = 1, day = 1\<rparr> \<lparr>year = 2024, month = 2, day = 29\<rparr>
       = Inl ValueError
   \<and> get_upcoming_birthdays \<lparr>year = 2025, month = 1, day = 1\<rparr>
       [(''Ann'', \<lparr>name = ''Ann'', phones = [], birthday = Some ''29.02.2024''\<rparr>)]
       = Inl ValueError"
proof -
  have 1: "add_birthday ''29.02.2024'' (Record_init ''Ann'')
     = (Inr (), \<lparr>name = ''Ann'', phones = [], birthday = Some ''29.02.2024''\<rparr>)"
    by code_simp
  have 2: "record_invariant \<lparr>name = ''Ann'', phones = [], birthday = Some ''29.02.2024''\<rparr>"
    by code_simp
  have 3: "is_leap 2024 \<and> \<not> is_leap 2025"
    by (simp add: is_leap_def)
  have 4: "date_new 2025 1 1 = Inr \<lparr>year = 2025, month = 1, day = 1\<rparr>"
    by code_simp
  have 5: "replace_year \<lparr>year = 2024, month = 2, day = 29\<rparr> 2025 = Inl ValueError"
    by code_simp
  have 6: "birthday_this_year \<lparr>year = 2025, month = 1, day = 1\<rparr>
      \<lparr>year = 2024, month = 2, day = 29\<rparr> = Inl ValueError"
    by code_simp
  have 7: "get_upcoming_birthdays \<lparr>year = 2025, month = 1, day = 1\<rparr>
       [(''Ann'', \<lparr>name = ''Ann'', phones = [], birthday = Some ''29.02.2024''\<rparr>)]
       = Inl ValueError"
    by code_simp
  from 1 2 strptime_leap_day 3 4 5 6 7 show ?thesis by blast
qed

theorem C4_leap_day_projection_raises_witness:
  "\<exists>book today. list_all record_invariant (map snd book) \<and> \<not> is_leap (year today)
     \<and> get_upcoming_birthdays today book = Inl ValueError"
proof -
  let ?book = "[(''Ann'', \<lparr>name = ''Ann'', phones = [], birthday = Some ''29.02.2024''\<rparr>)]"
  let ?today = "\<lparr>year = 2025, month = 1, day = 1\<rparr>"
  from C4_leap_day_projection_raises
  have "list_all record_invariant (map snd ?book) \<and> \<not> is_leap (year ?today)
     \<and> get_upcoming_birthdays ?today ?book = Inl ValueError"
    by simp
  then show ?thesis by blast
qed

section \<open>Upcoming birthdays: projection, window and weekend\<close>

lemma strptime_valid: "strptime s = Inr d \<Longrightarrow> valid_date d"
  by (auto simp: strptime_def date_new_valid split: option.splits if_splits)

lemma date_update_year: "\<lparr>year = y, month = month b, day = day b\<rparr> = b\<lparr>year := y\<rparr>"
  by (cases b) simp

lemma replace_year_Inr:
  "(replace_year b y = Inr d) = (d = b\<lparr>year := y\<rparr> \<and> valid_date (b\<lparr>year := y\<rparr>))"
  by (simp add: replace_year_def date_new_valid date_update_year)

lemma replace_year_Inl:
  "(replace_year b y = Inl e) = (e = ValueError \<and> \<not> valid_date (b\<lparr>year := y\<rparr>))"
  by (simp add: replace_year_def date_new_Inl date_update_year)

lemma replace_year_valid: "valid_date (b\<lparr>year := y\<rparr>) \<Longrightarrow> replace_year b y = Inr (b\<lparr>year := y\<rparr>)"
  by (simp add: replace_year_Inr)

lemma birthday_this_year_same:
  assumes "valid_date (b\<lparr>year := year today\<rparr>)" "\<not> date_lt (b\<lparr>year := year today\<rparr>) today"
  shows "birthday_this_year today b = Inr (b\<lparr>year := year today\<rparr>)"
  using assms by (simp add: birthday_this_year_def replace_year_valid)

lemma birthday_this_year_next:
  assumes "valid_date (b\<lparr>year := year today\<rparr>)" "date_lt (b\<lparr>year := year today\<rparr>) today"
  shows "birthday_this_year today b = replace_year b (year today + 1)"
  using assms by (simp add: birthday_this_year_def replace_year_valid)

lemma birthday_this_year_Inr:
  "(birthday_this_year today b = Inr d) =
     (valid_date (b\<lparr>year := year today\<rparr>) \<and>
      (if date_lt (b\<lparr>year := year today\<rparr>) today
       then valid_date (b\<lparr>year := year today + 1\<rparr>) \<and> d = b\<lparr>year := year today + 1\<rparr>
       else d = b\<lparr>year := year today\<rparr>))"
proof (cases "valid_date (b\<lparr>year := year today\<rparr>)")
  case True
  then show ?thesis
    by (auto simp: birthday_this_year_def replace_year_valid replace_year_Inr)
next
  case False
  then have "replace_year b (year today) = Inl ValueError"
    by (simp add: replace_year_Inl)
  with False show ?thesis by (simp add: birthday_this_year_def)
qed

lemma birthday_this_year_total:
  "birthday_this_year today b =
      (if \<not> valid_date (b\<lparr>year := year today\<rparr>) then Inl ValueError
       else if date_lt (b\<lparr>year := year today\<rparr>) today
         then (if valid_date (b\<lparr>year := year today + 1\<rparr>)
               then Inr (b\<lparr>year := year today + 1\<rparr>) else Inl ValueError)
       else Inr (b\<lparr>year := year today\<rparr>))"
proof (cases "valid_date (b\<lparr>year := year today\<rparr>)")
  case False
  then have "replace_year b (year today) = Inl ValueError"
    by (simp add: replace_year_Inl)
  with False show ?thesis by (simp add: birthday_this_year_def)
next
  case True
  show ?thesis
  proof (cases "valid_date (b\<lparr>year := year today + 1\<rparr>)")
    case v: True
    with True show ?thesis
      by (simp add: birthday_this_year_def replace_year_valid)
  next
    case False
    then have "replace_year b (year today + 1) = Inl ValueError"
      by (simp add: replace_year_Inl)
    with True False show ?thesis
      by (simp add: birthday_this_year_def replace_year_valid)
  qed
qed

lemma birthday_this_year_result:
  assumes "valid_date today" "birthday_this_year today b = Inr d"
  shows "valid_date d \<and> month d = month b \<and> day d = day b
    \<and> \<not> date_lt d today \<and> toordinal today \<le> toordinal d
    \<and> (year d = year today \<or> year d = year today + 1)
    \<and> (year d = year today + 1) = date_lt (b\<lparr>year := year today\<rparr>) today"
proof -
  from assms(2) have v: "valid_date (b\<lparr>year := year today\<rparr>)"
    and c: "if date_lt (b\<lparr>year := year today\<rparr>) today
       then valid_date (b\<lparr>year := year today + 1\<rparr>) \<and> d = b\<lparr>year := year today + 1\<rparr>
       else d = b\<lparr>year := year today\<rparr>"
    by (simp_all add: birthday_this_year_Inr)
  have main: "valid_date d \<and> month d = month b \<and> day d = day b \<and> \<not> date_lt d today
    \<and> (year d = year today \<or> year d = year today + 1)
    \<and> (year d = year today + 1) = date_lt (b\<lparr>year := year today\<rparr>) today"
  proof (cases "date_lt (b\<lparr>year := year today\<rparr>) today")
    case True
    with c have d: "valid_date d" "d = b\<lparr>year := year today + 1\<rparr>" by simp_all
    then have "\<not> date_lt d today" by (simp add: date_lt_def)
    with d True show ?thesis by simp
  next
    case False
    with c have "d = b\<lparr>year := year today\<rparr>" by simp
    with v False show ?thesis by simp
  qed
  from main have vd: "valid_date d" and nl: "\<not> date_lt d today" by simp_all
  have "date_lt d today = (toordinal d < toordinal today)"
    using vd assms(1) by (rule date_lt_iff)
  with nl have "toordinal today \<le> toordinal d" by simp
  with main show ?thesis by blast
qed

lemma weekday_range: "0 \<le> weekday d \<and> weekday d \<le> 6"
  by (simp add: weekday_def)

lemma roll_in_range:
  "(1::int) \<le> t \<Longrightarrow> t \<le> 3652059 \<Longrightarrow> 5 \<le> (t + 6) mod 7 \<Longrightarrow>
   0 < t + (7 - (t + 6) mod 7) \<and> t + (7 - (t + 6) mod 7) \<le> 3652059"
  by presburger

lemma roll_is_monday: "((t::int) + (7 - (t + 6) mod 7) + 6) mod 7 = 0"
  by presburger

lemma congratulation_date_weekday:
  assumes "weekday d < 5"
  shows "congratulation_date d = Inr d"
  using assms by (simp add: congratulation_date_def)

lemma congratulation_date_weekend:
  assumes "valid_date d" "5 \<le> weekday d"
  shows "\<exists>c. congratulation_date d = Inr c \<and> valid_date c
    \<and> toordinal c = toordinal d + (7 - weekday d) \<and> weekday c = 0"
proof -
  from assms(1) have t: "1 \<le> toordinal d" "toordinal d \<le> 3652059"
    using toordinal_bounds [of d] by (simp_all add: MAXORDINAL_def)
  from assms(2) have w: "5 \<le> (toordinal d + 6) mod 7" by (simp add: weekday_def)
  let ?o = "toordinal d + (7 - (toordinal d + 6) mod 7)"
  from t w have r: "0 < ?o \<and> ?o \<le> 3652059" by (rule roll_in_range)
  then have "1 \<le> ?o" "?o \<le> MAXORDINAL" by (simp_all add: MAXORDINAL_def)
  then obtain c where c: "fromordinal ?o = Inr c" "valid_date c" "toordinal c = ?o"
    using fromordinal_ok [of ?o] by blast
  from r c(1) assms(2) have "congratulation_date d = Inr c"
    by (simp add: congratulation_date_def date_add_days_def Let_def weekday_def MAXORDINAL_def)
  moreover have "weekday c = 0"
    unfolding weekday_def c(3) by (rule roll_is_monday)
  moreover have "toordinal c = toordinal d + (7 - weekday d)"
    using c(3) by (simp add: weekday_def)
  ultimately show ?thesis using c(2) by blast
qed

lemma congratulation_date_ok:
  assumes "valid_date d"
  shows "\<exists>c. congratulation_date d = Inr c \<and> valid_date c
    \<and> (weekday d = 5 \<longrightarrow> toordinal c = toordinal d + 2 \<and> weekday c = 0)
    \<and> (weekday d = 6 \<longrightarrow> toordinal c = toordinal d + 1 \<and> weekday c = 0)
    \<and> (weekday d < 5 \<longrightarrow> c = d)"
proof (cases "5 \<le> weekday d")
  case True
  with assms obtain c where c: "congratulation_date d = Inr c" "valid_date c"
    "toordinal c = toordinal d + (7 - weekday d)" "weekday c = 0"
    using congratulation_date_weekend [of d] by blast
  with True show ?thesis by auto
next
  case False
  then have "congratulation_date d = Inr d" by (simp add: congratulation_date_weekday)
  with False assms show ?thesis by auto
qed

lemma upcoming_entry_no_birthday:
  "birthday r = None \<Longrightarrow> upcoming_entry today r = Inr None"
  by (simp add: upcoming_entry_def)

lemma upcoming_entry_outside:
  assumes "projected_date today r = Inr (Some d)"
    and "\<not> (toordinal today \<le> toordinal d \<and> toordinal d \<le> toordinal today + 7)"
  shows "upcoming_entry today r = Inr None"
  using assms
  by (auto simp: projected_date_def upcoming_entry_def date_sub_days_def
      split: option.splits sum.splits)

lemma upcoming_entry_inside:
  assumes "projected_date today r = Inr (Some d)"
    and "toordinal today \<le> toordinal d \<and> toordinal d \<le> toordinal today + 7"
    and "congratulation_date d = Inr c"
  shows "upcoming_entry today r = Inr (Some (name r, strftime c))"
  using assms
  by (auto simp: projected_date_def upcoming_entry_def date_sub_days_def
      split: option.splits sum.splits)

lemma projected_date_Some:
  "(projected_date today r = Inr (Some d)) =
     (\<exists>v b. birthday r = Some v \<and> strptime v = Inr b \<and> birthday_this_year today b = Inr d)"
  by (auto simp: projected_date_def split: option.splits sum.splits)

lemma projected_date_valid:
  assumes "valid_date today" "projected_date today r = Inr (Some d)"
  shows "valid_date d"
  using assms birthday_this_year_result [of today _ d]
  by (auto simp: projected_date_Some)

lemma entry_list_window:
  assumes "valid_date today" "projects today r"
  shows "if in_window today r
         then \<exists>d c. projected_date today r = Inr (Some d) \<and> congratulation_date d = Inr c
                \<and> entry_list today r = [(name r, strftime c)]
                \<and> upcoming_entry today r = Inr (Some (name r, strftime c))
         else entry_list today r = [] \<and> upcoming_entry today r = Inr None"
proof -
  from assms(2) obtain pd where pd: "projected_date today r = Inr pd"
    by (auto simp: projects_def split: sum.splits)
  show ?thesis
  proof (cases pd)
    case None
    with pd have "birthday r = None"
      by (auto simp: projected_date_def split: option.splits sum.splits)
    then have "upcoming_entry today r = Inr None" by (rule upcoming_entry_no_birthday)
    with pd None show ?thesis by (simp add: in_window_def entry_list_def)
  next
    case (Some d)
    with pd have p: "projected_date today r = Inr (Some d)" by simp
    show ?thesis
    proof (cases "toordinal today \<le> toordinal d \<and> toordinal d \<le> toordinal today + 7")
      case False
      with p have "upcoming_entry today r = Inr None" by (rule upcoming_entry_outside)
      with p False show ?thesis by (simp add: in_window_def entry_list_def)
    next
      case True
      from assms(1) p have "valid_date d" by (rule projected_date_valid)
      then obtain c where c: "congratulation_date d = Inr c"
        using congratulation_date_ok [of d] by blast
      with p True have "upcoming_entry today r = Inr (Some (name r, strftime c))"
        by (rule upcoming_entry_inside)
      with p True c show ?thesis by (simp add: in_window_def entry_list_def)
    qed
  qed
qed

lemma upcoming_entry_projects:
  assumes "valid_date today" "projects today r"
  shows "upcoming_entry today r = Inr (case entry_list today r of [] \<Rightarrow> None | e # _ \<Rightarrow> Some e)"
  using entry_list_window [OF assms] by (auto split: if_splits)

lemma upcoming_loop_projects:
  assumes "valid_date today" "list_all (projects today) rs"
  shows "upcoming_loop today rs acc = Inr (acc @ concat (map (entry_list today) rs))"
  using assms(2)
proof (induction rs arbitrary: acc)
  case Nil
  show ?case by simp
next
  case (Cons r rs)
  then have r: "projects today r" and rs: "list_all (projects today) rs" by simp_all
  from assms(1) r
  have e: "upcoming_entry today r = Inr (case entry_list today r of [] \<Rightarrow> None | e # _ \<Rightarrow> Some e)"
    by (rule upcoming_entry_projects)
  from entry_list_window [OF assms(1) r]
  consider (none) "entry_list today r = []" | (one) x where "entry_list today r = [x]"
    by (auto split: if_splits)
  then show ?case
  proof cases
    case none
    with e Cons.IH [OF rs] show ?thesis by simp
  next
    case one
    with e Cons.IH [OF rs] show ?thesis by simp
  qed
qed

lemma entry_names:
  assumes "valid_date today" "list_all (projects today) rs"
  shows "map fst (concat (map (entry_list today) rs)) = map name (filter (in_window today) rs)"
  using assms(2)
proof (induction rs)
  case Nil
  show ?case by simp
next
  case (Cons r rs)
  then have r: "projects today r" and rs: "list_all (projects today) rs" by simp_all
  from entry_list_window [OF assms(1) r] Cons.IH [OF rs] show ?case
    by (auto split: if_splits)
qed

lemma entry_reported:
  assumes "valid_date today" "list_all (projects today) rs"
  shows "list_all2
      (\<lambda>e r. \<exists>d c. projected_date today r = Inr (Some d) \<and> congratulation_date d = Inr c
          \<and> e = (name r, strftime c))
      (concat (map (entry_list today) rs)) (filter (in_window today) rs)"
  using assms(2)
proof (induction rs)
  case Nil
  show ?case by simp
next
  case (Cons r rs)
  then have r: "projects today r" and rs: "list_all (projects today) rs" by simp_all
  from entry_list_window [OF assms(1) r] Cons.IH [OF rs] show ?case
    by (auto split: if_splits)
qed

lemma get_upcoming_birthdays_single:
  assumes "upcoming_entry today r = Inr (Some e)"
  shows "get_upcoming_birthdays today [(k, r)] = Inr [e]"
  using assms by (simp add: get_upcoming_birthdays_def)

lemma date_2025_01_03:
  "valid_date \<lparr>year = 2025, month = 1, day = 3\<rparr>"
  "\<not> date_lt \<lparr>year = 2025, month = 1, day = 3\<rparr> \<lparr>year = 2025, month = 1, day = 1\<rparr>"
  "toordinal \<lparr>year = 2025, month = 1, day = 1\<rparr> = 739252"
  "toordinal \<lparr>year = 2025, month = 1, day = 3\<rparr> = 739254"
  "congratulation_date \<lparr>year = 2025, month = 1, day = 3\<rparr> = Inr \<lparr>year = 2025, month = 1, day = 3\<rparr>"
  "strftime \<lparr>year = 2025, month = 1, day = 3\<rparr> = ''03.01.2025''"
  by code_simp+

lemma third_of_january:
  assumes "today = \<lparr>year = 2025, month = 1, day = 1\<rparr>" "s = ''03.01.2025''"
    and "birthday r = Some v" "strptime v = Inr \<lparr>year = y, month = 1, day = 3\<rparr>"
  shows "in_window today r \<and> upcoming_entry today r = Inr (Some (name r, s))"
proof -
  let ?b = "\<lparr>year = y, month = 1, day = 3\<rparr>"
  let ?d = "\<lparr>year = 2025, month = 1, day = 3\<rparr>"
  have u: "?b\<lparr>year := year today\<rparr> = ?d" by (simp add: assms(1))
  have v: "valid_date (?b\<lparr>year := year today\<rparr>)"
    unfolding u by (rule date_2025_01_03(1))
  have n0: "\<not> date_lt ?d today"
    unfolding assms(1) by (rule date_2025_01_03(2))
  have n: "\<not> date_lt (?b\<lparr>year := year today\<rparr>) today"
    unfolding u by (rule n0)
  have "birthday_this_year today ?b = Inr ?d"
    using birthday_this_year_same [OF v n] unfolding u .
  with assms(3,4) have p: "projected_date today r = Inr (Some ?d)"
    by (simp add: projected_date_def)
  have w: "toordinal today \<le> toordinal ?d \<and> toordinal ?d \<le> toordinal today + 7"
    unfolding assms(1) by (simp add: date_2025_01_03)
  from p w have i: "in_window today r" by (simp add: in_window_def)
  from p w date_2025_01_03(5)
  have "upcoming_entry today r = Inr (Some (name r, strftime ?d))"
    by (rule upcoming_entry_inside)
  then have "upcoming_entry today r = Inr (Some (name r, s))"
    unfolding date_2025_01_03(6) assms(2) .
  with i show ?thesis by (rule conjI)
qed

section \<open>The claims on upcoming birthdays\<close>

text \<open>
  The projection, case by case.  Let \<open>b\<close> be the date parsed from a record's birthday.  The projection first
  replaces the year of \<open>b\<close> by the current year, and next year replaces it when the
  date so obtained is strictly before today; a replacement that is no date of the
  calendar raises \<^verbatim>\<open>ValueError\<close>.  When \<open>b\<close> with the
  current year is a date and is not before today, that date is the projected date.
  When it is a date strictly before today, the projection is the replacement of the
  year by next year, and is \<open>b\<close> with next year when that is a date.  Being strictly
  before today is being earlier in days.  Whenever the projection returns a date, it has
  the month and day of \<open>b\<close>, is not before today, and is in next year exactly when the
  current-year date is strictly before today, in the current year otherwise.  For a
  record whose current-year date has passed and whose projected date is within seven days,
  the query reports the congratulation date of next year's date.
\<close>

lemma birthday_this_year_cases:
  assumes "valid_date today"
  shows
   "birthday_this_year today b =
      (if \<not> valid_date (b\<lparr>year := year today\<rparr>) then Inl ValueError
       else if date_lt (b\<lparr>year := year today\<rparr>) today
         then (if valid_date (b\<lparr>year := year today + 1\<rparr>)
               then Inr (b\<lparr>year := year today + 1\<rparr>) else Inl ValueError)
       else Inr (b\<lparr>year := year today\<rparr>))
    \<and> (valid_date (b\<lparr>year := year today\<rparr>) \<and> \<not> date_lt (b\<lparr>year := year today\<rparr>) today
       \<longrightarrow> birthday_this_year today b = Inr (b\<lparr>year := year today\<rparr>))
    \<and> (valid_date (b\<lparr>year := year today\<rparr>) \<and> date_lt (b\<lparr>year := year today\<rparr>) today
       \<longrightarrow> birthday_this_year today b = replace_year b (year today + 1)
         \<and> (valid_date (b\<lparr>year := year today + 1\<rparr>)
              \<longrightarrow> birthday_this_year today b = Inr (b\<lparr>year := year today + 1\<rparr>)))
    \<and> (valid_date (b\<lparr>year := year today\<rparr>)
       \<longrightarrow> date_lt (b\<lparr>year := year today\<rparr>) today
            = (toordinal (b\<lparr>year := year today\<rparr>) < toordinal today))
    \<and> (\<forall>d. birthday_this_year today b = Inr d
       \<longrightarrow> valid_date d \<and> month d = month b \<and> day d = day b \<and> toordinal today \<le> toordinal d
         \<and> (year d = year today + 1) = date_lt (b\<lparr>year := year today\<rparr>) today
         \<and> (year d = year today) = (\<not> date_lt (b\<lparr>year := year today\<rparr>) today))
    \<and> (\<forall>r v d. birthday r = Some v \<and> strptime v = Inr b
           \<and> date_lt (b\<lparr>year := year today\<rparr>) today
           \<and> birthday_this_year today b = Inr d \<and> toordinal d \<le> toordinal today + 7
       \<longrightarrow> d = b\<lparr>year := year today + 1\<rparr>
         \<and> (\<exists>c. congratulation_date d = Inr c
              \<and> upcoming_entry today r = Inr (Some (name r, strftime c))
              \<and> get_upcoming_birthdays today [(name r, r)] = Inr [(name r, strftime c)]))"
proof (intro conjI impI allI)
  show "birthday_this_year today b =
      (if \<not> valid_date (b\<lparr>year := year today\<rparr>) then Inl ValueError
       else if date_lt (b\<lparr>year := year today\<rparr>) today
         then (if valid_date (b\<lparr>year := year today + 1\<rparr>)
               then Inr (b\<lparr>year := year today + 1\<rparr>) else Inl ValueError)
       else Inr (b\<lparr>year := year today\<rparr>))"
    by (rule birthday_this_year_total)
next
  assume "valid_date (b\<lparr>year := year today\<rparr>) \<and> \<not> date_lt (b\<lparr>year := year today\<rparr>) today"
  then show "birthday_this_year today b = Inr (b\<lparr>year := year today\<rparr>)"
    by (simp add: birthday_this_year_same)
next
  assume "valid_date (b\<lparr>year := year today\<rparr>) \<and> date_lt (b\<lparr>year := year today\<rparr>) today"
  then show "birthday_this_year today b = replace_year b (year today + 1)"
    by (simp add: birthday_this_year_next)
next
  assume "valid_date (b\<lparr>year := year today\<rparr>) \<and> date_lt (b\<lparr>year := year today\<rparr>) today"
    and "valid_date (b\<lparr>year := year today + 1\<rparr>)"
  then show "birthday_this_year today b = Inr (b\<lparr>year := year today + 1\<rparr>)"
    by (simp add: birthday_this_year_next replace_year_valid)
next
  assume "valid_date (b\<lparr>year := year today\<rparr>)"
  then show "date_lt (b\<lparr>year := year today\<rparr>) today
      = (toordinal (b\<lparr>year := year today\<rparr>) < toordinal today)"
    using assms by (rule date_lt_iff)
next
  fix d assume "birthday_this_year today b = Inr d"
  with assms have r: "valid_date d \<and> month d = month b \<and> day d = day b
    \<and> \<not> date_lt d today \<and> toordinal today \<le> toordinal d
    \<and> (year d = year today \<or> year d = year today + 1)
    \<and> (year d = year today + 1) = date_lt (b\<lparr>year := year today\<rparr>) today"
    by (rule birthday_this_year_result)
  then show "valid_date d" "month d = month b" "day d = day b" "toordinal today \<le> toordinal d"
    "(year d = year today + 1) = date_lt (b\<lparr>year := year today\<rparr>) today"
    by simp_all
  from r show "(year d = year today) = (\<not> date_lt (b\<lparr>year := year today\<rparr>) today)"
    by auto
next
  fix r :: Record and v d
  assume a: "birthday r = Some v \<and> strptime v = Inr b
           \<and> date_lt (b\<lparr>year := year today\<rparr>) today
           \<and> birthday_this_year today b = Inr d \<and> toordinal d \<le> toordinal today + 7"
  then show "d = b\<lparr>year := year today + 1\<rparr>"
    by (simp add: birthday_this_year_Inr)
  from a assms have res: "valid_date d" "toordinal today \<le> toordinal d"
    using birthday_this_year_result [of today b d] by simp_all
  from a have p: "projected_date today r = Inr (Some d)"
    by (simp add: projected_date_def)
  from res(1) obtain c where c: "congratulation_date d = Inr c"
    using congratulation_date_ok [of d] by blast
  from a res(2) have w: "toordinal today \<le> toordinal d \<and> toordinal d \<le> toordinal today + 7"
    by simp
  from p w c have e: "upcoming_entry today r = Inr (Some (name r, strftime c))"
    by (rule upcoming_entry_inside)
  then have "get_upcoming_birthdays today [(name r, r)] = Inr [(name r, strftime c)]"
    by (rule get_upcoming_birthdays_single)
  with c e show "\<exists>c. congratulation_date d = Inr c
      \<and> upcoming_entry today r = Inr (Some (name r, strftime c))
      \<and> get_upcoming_birthdays today [(name r, r)] = Inr [(name r, strftime c)]"
    by blast
qed

text \<open>
  C2.  The specification lets the query project every birthday into the current year,
  and into next year when the current-year date is strictly before today, and report
  next year's date then.  The code does not for a birthday on 29 February: the stored
  birthday \<^verbatim>\<open>29.02.2000\<close> passes the validation; on 1 March 2024 its current-year
  date, 29 February 2024, is strictly before today, and the projection into next year,
  \<^verbatim>\<open>replace(year=2025)\<close>, raises \<^verbatim>\<open>ValueError\<close>, so the query raises and reports
  nothing.
\<close>

theorem C2_leap_day_next_year_raises:
  "Birthday ''29.02.2000'' = Inr ''29.02.2000''
   \<and> strptime ''29.02.2000'' = Inr \<lparr>year = 2000, month = 2, day = 29\<rparr>
   \<and> valid_date \<lparr>year = 2024, month = 3, day = 1\<rparr>
   \<and> replace_year \<lparr>year = 2000, month = 2, day = 29\<rparr> 2024
       = Inr \<lparr>year = 2024, month = 2, day = 29\<rparr>
   \<and> date_lt \<lparr>year = 2024, month = 2, day = 29\<rparr> \<lparr>year = 2024, month = 3, day = 1\<rparr>
   \<and> replace_year \<lparr>year = 2000, month = 2, day = 29\<rparr> 2025 = Inl ValueError
   \<and> birthday_this_year \<lparr>year = 2024, month = 3, day = 1\<rparr> \<lparr>year = 2000, month = 2, day = 29\<rparr>
       = Inl ValueError
   \<and> get_upcoming_birthdays \<lparr>year = 2024, month = 3, day = 1\<rparr>
       [(''Eve'', \<lparr>name = ''Eve'', phones = [], birthday = Some ''29.02.2000''\<rparr>)]
       = Inl ValueError"
  by code_simp

text \<open>
  C3.  For a record whose projected date \<open>d\<close> is between today and seven days after
  today, the query reports an entry with the record's name and a congratulation date
  \<open>c\<close>, formatted by \<open>strftime\<close>.  When \<open>d\<close> is a Saturday (weekday 5), \<open>c\<close> is
  two days after \<open>d\<close> and a Monday (weekday 0); when \<open>d\<close> is a Sunday (weekday 6),
  \<open>c\<close> is one day after \<open>d\<close> and a Monday; on every other weekday \<open>c\<close> is \<open>d\<close>
  itself.  The move to Monday never leaves the range of dates.
\<close>

theorem C3_weekend_to_monday:
  assumes "valid_date today"
    and "projected_date today r = Inr (Some d)"
    and "toordinal today \<le> toordinal d \<and> toordinal d \<le> toordinal today + 7"
  shows "\<exists>c. congratulation_date d = Inr c \<and> valid_date c
    \<and> upcoming_entry today r = Inr (Some (name r, strftime c))
    \<and> get_upcoming_birthdays today [(name r, r)] = Inr [(name r, strftime c)]
    \<and> (weekday d = 5 \<longrightarrow> toordinal c = toordinal d + 2 \<and> weekday c = 0)
    \<and> (weekday d = 6 \<longrightarrow> toordinal c = toordinal d + 1 \<and> weekday c = 0)
    \<and> (weekday d < 5 \<longrightarrow> c = d)"
proof -
  from assms(1,2) have "valid_date d" by (rule projected_date_valid)
  then obtain c where c: "congratulation_date d = Inr c" "valid_date c"
    "weekday d = 5 \<longrightarrow> toordinal c = toordinal d + 2 \<and> weekday c = 0"
    "weekday d = 6 \<longrightarrow> toordinal c = toordinal d + 1 \<and> weekday c = 0"
    "weekday d < 5 \<longrightarrow> c = d"
    using congratulation_date_ok [of d] by blast
  from assms(2,3) c(1) have e: "upcoming_entry today r = Inr (Some (name r, strftime c))"
    by (rule upcoming_entry_inside)
  then have "get_upcoming_birthdays today [(name r, r)] = Inr [(name r, strftime c)]"
    by (rule get_upcoming_birthdays_single)
  with c e show ?thesis by blast
qed

theorem C3_weekend_to_monday_witness:
  "weekday \<lparr>year = 2025, month = 1, day = 4\<rparr> = 5
   \<and> weekday \<lparr>year = 2025, month = 1, day = 6\<rparr> = 0
   \<and> toordinal \<lparr>year = 2025, month = 1, day = 6\<rparr> = toordinal \<lparr>year = 2025, month = 1, day = 4\<rparr> + 2
   \<and> get_upcoming_birthdays \<lparr>year = 2025, month = 1, day = 1\<rparr>
       [(name \<lparr>name = ''Bob'', phones = [], birthday = Some ''04.01.1990''\<rparr>,
         \<lparr>name = ''Bob'', phones = [], birthday = Some ''04.01.1990''\<rparr>)]
     = Inr [(name \<lparr>name = ''Bob'', phones = [], birthday = Some ''04.01.1990''\<rparr>, ''06.01.2025'')]"
proof -
  let ?today = "\<lparr>year = 2025, month = 1, day = 1\<rparr>"
  let ?d = "\<lparr>year = 2025, month = 1, day = 4\<rparr>"
  let ?m = "\<lparr>year = 2025, month = 1, day = 6\<rparr>"
  let ?r = "\<lparr>name = ''Bob'', phones = [], birthday = Some ''04.01.1990''\<rparr>"
  have t: "valid_date ?today" by code_simp
  have p: "projected_date ?today ?r = Inr (Some ?d)" by code_simp
  have w: "toordinal ?today \<le> toordinal ?d \<and> toordinal ?d \<le> toordinal ?today + 7" by code_simp
  have sat: "weekday ?d = 5" by code_simp
  have cm: "congratulation_date ?d = Inr ?m" by code_simp
  have fm: "strftime ?m = ''06.01.2025''" by code_simp
  from C3_weekend_to_monday [OF t p w] obtain c where c: "congratulation_date ?d = Inr c"
    "get_upcoming_birthdays ?today [(name ?r, ?r)] = Inr [(name ?r, strftime c)]"
    "weekday ?d = 5 \<longrightarrow> toordinal c = toordinal ?d + 2 \<and> weekday c = 0"
    by blast
  from c(1) cm have "c = ?m" by simp
  with c(2,3) sat have g: "get_upcoming_birthdays ?today [(name ?r, ?r)] = Inr [(name ?r, strftime ?m)]"
    and o: "toordinal ?m = toordinal ?d + 2" and mo: "weekday ?m = 0"
    by simp_all
  from g have "get_upcoming_birthdays ?today [(name ?r, ?r)] = Inr [(name ?r, ''06.01.2025'')]"
    unfolding fm .
  with sat mo o show ?thesis by blast
qed

text \<open>
  What the loop computes when no record raises.  For a current date and an address book
  in which every record projects, the query returns a list that holds the records in
  the window, in the order of the book: the names in the list are the names of the
  records whose projected date is between today and seven days after today, both
  included, and every entry is the name of its record with the formatted congratulation
  date of the record's projected date.  With today = 01.01.2025, a record of such a
  book whose birthday parses to 3 January of any year is in the window and is reported
  with the congratulation date \<^verbatim>\<open>03.01.2025\<close>.
\<close>

lemma upcoming_window_of_projecting_book:
  assumes "valid_date today"
    and "list_all (projects today) (map snd book)"
  shows "\<exists>res. get_upcoming_birthdays today book = Inr res
    \<and> map fst res = map name (filter (in_window today) (map snd book))
    \<and> list_all2
        (\<lambda>e r. \<exists>d c. projected_date today r = Inr (Some d) \<and> congratulation_date d = Inr c
            \<and> e = (name r, strftime c))
        res (filter (in_window today) (map snd book))
    \<and> (today = \<lparr>year = 2025, month = 1, day = 1\<rparr> \<longrightarrow>
         (\<forall>r \<in> set (map snd book). \<forall>v y.
             birthday r = Some v \<and> strptime v = Inr \<lparr>year = y, month = 1, day = 3\<rparr>
             \<longrightarrow> in_window today r \<and> (name r, ''03.01.2025'') \<in> set res))"
proof -
  let ?rs = "map snd book"
  let ?res = "concat (map (entry_list today) ?rs)"
  define s where "s = ''03.01.2025''"
  have g: "get_upcoming_birthdays today book = Inr ?res"
    using upcoming_loop_projects [OF assms, of "[]"] by (simp add: get_upcoming_birthdays_def)
  have n: "map fst ?res = map name (filter (in_window today) ?rs)"
    using assms by (rule entry_names)
  have l: "list_all2
        (\<lambda>e r. \<exists>d c. projected_date today r = Inr (Some d) \<and> congratulation_date d = Inr c
            \<and> e = (name r, strftime c))
        ?res (filter (in_window today) ?rs)"
    using assms by (rule entry_reported)
  have x: "today = \<lparr>year = 2025, month = 1, day = 1\<rparr> \<longrightarrow>
         (\<forall>r \<in> set ?rs. \<forall>v y.
             birthday r = Some v \<and> strptime v = Inr \<lparr>year = y, month = 1, day = 3\<rparr>
             \<longrightarrow> in_window today r \<and> (name r, s) \<in> set ?res)"
  proof (intro impI ballI allI)
    fix r :: Record and v y
    assume t: "today = \<lparr>year = 2025, month = 1, day = 1\<rparr>" and r: "r \<in> set ?rs"
      and b: "birthday r = Some v \<and> strptime v = Inr \<lparr>year = y, month = 1, day = 3\<rparr>"
    from b have b1: "birthday r = Some v"
      and b2: "strptime v = Inr \<lparr>year = y, month = 1, day = 3\<rparr>"
      by (rule conjunct1, rule conjunct2)
    from third_of_january [OF t s_def b1 b2]
    have w: "in_window today r" and e: "upcoming_entry today r = Inr (Some (name r, s))"
      by (rule conjunct1, rule conjunct2)
    from e have "entry_list today r = [(name r, s)]"
      by (simp add: entry_list_def)
    then have m1: "(name r, s) \<in> set (entry_list today r)"
      by simp
    have m2: "entry_list today r \<in> set (map (entry_list today) ?rs)"
      using r by (simp only: set_map) (rule imageI)
    from m1 m2 have "(name r, s) \<in> set ?res"
      unfolding set_concat by blast
    with w show "in_window today r \<and> (name r, s) \<in> set ?res"
      by (rule conjI)
  qed
  have "\<exists>res. get_upcoming_birthdays today book = Inr res
    \<and> map fst res = map name (filter (in_window today) ?rs)
    \<and> list_all2
        (\<lambda>e r. \<exists>d c. projected_date today r = Inr (Some d) \<and> congratulation_date d = Inr c
            \<and> e = (name r, strftime c))
        res (filter (in_window today) ?rs)
    \<and> (today = \<lparr>year = 2025, month = 1, day = 1\<rparr> \<longrightarrow>
         (\<forall>r \<in> set ?rs. \<forall>v y.
             birthday r = Some v \<and> strptime v = Inr \<lparr>year = y, month = 1, day = 3\<rparr>
             \<longrightarrow> in_window today r \<and> (name r, s) \<in> set res))"
    by (rule exI [of _ ?res]) (intro conjI g n l x)
  then show ?thesis unfolding s_def .
qed

text \<open>
  C1.  The specification lets the query return, for every address book and every
  current date, exactly the records whose projected date is in the window.  The code
  does not.  On 25 February 2023 the record of Ann, with the birthday \<^verbatim>\<open>27.02.1990\<close>,
  is in the window, and a book that holds only this record returns it with the date
  \<^verbatim>\<open>27.02.2023\<close>.  With the record of Eve before it, whose stored birthday
  \<^verbatim>\<open>29.02.2000\<close> satisfies the invariant of records, the projection of Eve's
  birthday into 2023 raises \<^verbatim>\<open>ValueError\<close>: the query returns no list, and Ann is not
  reported.
\<close>

theorem C1_leap_day_book_raises:
  "valid_date \<lparr>year = 2023, month = 2, day = 25\<rparr>
   \<and> record_invariant \<lparr>name = ''Eve'', phones = [], birthday = Some ''29.02.2000''\<rparr>
   \<and> record_invariant \<lparr>name = ''Ann'', phones = [], birthday = Some ''27.02.1990''\<rparr>
   \<and> in_window \<lparr>year = 2023, month = 2, day = 25\<rparr>
        \<lparr>name = ''Ann'', phones = [], birthday = Some ''27.02.1990''\<rparr>
   \<and> get_upcoming_birthdays \<lparr>year = 2023, month = 2, day = 25\<rparr>
       [(''Ann'', \<lparr>name = ''Ann'', phones = [], birthday = Some ''27.02.1990''\<rparr>)]
     = Inr [(''Ann'', ''27.02.2023'')]
   \<and> get_upcoming_birthdays \<lparr>year = 2023, month = 2, day = 25\<rparr>
       [(''Eve'', \<lparr>name = ''Eve'', phones = [], birthday = Some ''29.02.2000''\<rparr>),
        (''Ann'', \<lparr>name = ''Ann'', phones = [], birthday = Some ''27.02.1990''\<rparr>)]
     = Inl ValueError"
  by code_simp

section \<open>Saving and loading\<close>

lemma dec_nat_enc_nat: "dec_nat (enc_nat n @ rest) = Some (n, rest)"
  by (induction n) (simp_all add: enc_nat_def)

lemma dec_str_enc_str: "dec_str (enc_str s @ rest) = Some (s, rest)"
  by (simp add: dec_str_def enc_str_def dec_nat_enc_nat)

lemma dec_n_strs_enc: "dec_n_strs (length xs) (concat (map enc_str xs) @ rest) = Some (xs, rest)"
  by (induction xs) (simp_all add: dec_str_enc_str)

lemma dec_strs_enc_strs: "dec_strs (enc_strs xs @ rest) = Some (xs, rest)"
  by (simp add: dec_strs_def enc_strs_def dec_nat_enc_nat dec_n_strs_enc)

lemma dec_record_enc_record: "dec_record (enc_record r @ rest) = Some (r, rest)"
proof (cases "birthday r")
  case None
  then have "\<lparr>name = name r, phones = phones r, birthday = None\<rparr> = r" by simp
  with None show ?thesis
    by (simp add: dec_record_def enc_record_def dec_str_enc_str dec_strs_enc_strs)
next
  case (Some b)
  then have "\<lparr>name = name r, phones = phones r, birthday = Some b\<rparr> = r" by simp
  with Some show ?thesis
    by (simp add: dec_record_def enc_record_def dec_str_enc_str dec_strs_enc_strs)
qed

lemma dec_item_enc_item: "dec_item (enc_item kv @ rest) = Some (kv, rest)"
  by (simp add: dec_item_def enc_item_def dec_str_enc_str dec_record_enc_record)

lemma dec_n_items_enc:
  "dec_n_items (length book) (concat (map enc_item book) @ rest) = Some (book, rest)"
  by (induction book) (simp_all add: dec_item_enc_item)

lemma pickle_load_dump: "pickle_load (pickle_dump book) = Inr book"
  using dec_n_items_enc [of book "[]"]
  by (simp add: pickle_load_def pickle_dump_def dec_nat_enc_nat)

text \<open>
  C10.  Saving a book to a path and loading from the same path returns the book that
  was saved, whatever the files held before: the same entries in the same order, so the
  same names, the same phone lists and the same birthdays.  This holds for every path,
  the default path of both functions among them.  Loading from a path where no file is
  gives the empty book.
\<close>

theorem C10_save_load_round_trip:
  "load_data filename (save_data book filename fs) = Inr book
   \<and> load_data default_filename (save_data book default_filename fs) = Inr book
   \<and> (\<exists>loaded. load_data filename (save_data book filename fs) = Inr loaded
        \<and> map fst loaded = map fst book
        \<and> map (name \<circ> snd) loaded = map (name \<circ> snd) book
        \<and> map (phones \<circ> snd) loaded = map (phones \<circ> snd) book
        \<and> map (birthday \<circ> snd) loaded = map (birthday \<circ> snd) book)
   \<and> load_data filename (fs(filename := None)) = Inr []"
proof -
  have a: "load_data f (save_data book f fs) = Inr book" for f
    by (simp add: load_data_def save_data_def pickle_load_dump)
  have b: "load_data filename (fs(filename := None)) = Inr []"
    by (simp add: load_data_def)
  from a [of filename] a [of default_filename] b show ?thesis by simp
qed

theorem C10_save_load_round_trip_witness:
  "load_data ''addressbook.pkl''
     (save_data
        [(''Ann'', \<lparr>name = ''Ann'', phones = [''0501234567''], birthday = Some ''29.02.2024''\<rparr>),
         (''Bob'', \<lparr>name = ''Bob'', phones = [], birthday = None\<rparr>)]
        ''addressbook.pkl'' (\<lambda>_. None))
     = Inr [(''Ann'', \<lparr>name = ''Ann'', phones = [''0501234567''], birthday = Some ''29.02.2024''\<rparr>),
            (''Bob'', \<lparr>name = ''Bob'', phones = [], birthday = None\<rparr>)]"
  by (rule C10_save_load_round_trip [THEN conjunct1])

end
